theory Spec2Isabelle
  imports Main "HOL-Library.Word"
begin

section \<open>Relay server: packages/relay-server/src/index.ts\<close>

text \<open>
  The relay keeps three SQLite tables (users, prekeys, messages), a table
  \<open>connections\<close> from identity id to the push socket that is authoritative for it, and
  the sockets themselves. A handler of the source runs without interruption until it
  awaits the callback of a send; other handlers run before the callback fires. So every
  handler is a function from the relay state to the next state up to its first
  \<open>await sendWsMessage\<close>, where it leaves its continuation in the state, and the callback
  is an event of its own that runs the continuation up to its next \<open>await\<close>. What the
  source takes from its environment is an argument: \<open>Date.now()\<close>, \<open>randomUUID()\<close>, the
  request target, and for every \<open>sendWsMessage\<close> whether the send succeeds.

  JSON texts stored in the tables (\<open>JSON.stringify\<close> of a schema-validated value,
  read back with \<open>JSON.parse\<close>) are identified with the value they denote.
\<close>

subsection \<open>Wire records and their schemas\<close>

record envelope =
  env_version :: int
  senderId :: string
  recipientId :: string
  sessionId :: string
  env_type :: int
  env_body :: string
  env_timestamp :: int

definition EnvelopeSchema :: "envelope \<Rightarrow> bool" where
  "EnvelopeSchema e \<longleftrightarrow>
     0 < env_version e \<and> 1 \<le> length (senderId e) \<and> 1 \<le> length (recipientId e) \<and>
     1 \<le> length (sessionId e) \<and> 0 \<le> env_type e \<and> 1 \<le> length (env_body e) \<and>
     0 < env_timestamp e"

record signed_pub =
  keyId :: int
  publicKey :: string
  signature :: string

record plain_pub =
  pk_keyId :: int
  pk_publicKey :: string

record prekey_bundle =
  bundle_id :: string
  deviceId :: int
  registrationId :: int
  identityKey :: string
  signedPreKey :: signed_pub
  preKey :: plain_pub
  kyberPreKey :: signed_pub

definition SignedSchema :: "signed_pub \<Rightarrow> bool" where
  "SignedSchema k \<longleftrightarrow> 0 \<le> keyId k \<and> 1 \<le> length (publicKey k) \<and> 1 \<le> length (signature k)"

definition BundleSchema :: "prekey_bundle \<Rightarrow> bool" where
  "BundleSchema b \<longleftrightarrow>
     1 \<le> length (bundle_id b) \<and> 0 < deviceId b \<and> 0 < registrationId b \<and>
     1 \<le> length (identityKey b) \<and> SignedSchema (signedPreKey b) \<and>
     0 \<le> pk_keyId (preKey b) \<and> 1 \<le> length (pk_publicKey (preKey b)) \<and>
     SignedSchema (kyberPreKey b)"

definition RegisterSchema :: "string \<Rightarrow> bool" where
  "RegisterSchema i \<longleftrightarrow> 1 \<le> length i"

definition PreKeyUploadSchema :: "string \<Rightarrow> prekey_bundle \<Rightarrow> bool" where
  "PreKeyUploadSchema i b \<longleftrightarrow> 1 \<le> length i \<and> BundleSchema b"

definition MessageSchema :: "string \<Rightarrow> string \<Rightarrow> envelope \<Rightarrow> bool" where
  "MessageSchema f t e \<longleftrightarrow> 1 \<le> length f \<and> 1 \<le> length t \<and> EnvelopeSchema e"

subsection \<open>Tables, sockets and the relay state\<close>

record message_row =
  row_id :: string
  to_id :: string
  from_id :: string
  envelope_json :: envelope
  created_at :: int

text \<open>A row of the table \<open>messages\<close>: the selected columns and the \<open>delivered\<close> flag.\<close>

record messages_entry =
  row :: message_row
  delivered :: bool

record push_payload =
  payload_from :: string
  payload_to :: string
  payload_envelope :: envelope

datatype ready_state = CONNECTING | OPEN | CLOSING | CLOSED

text \<open>
  A push socket: the \<open>clientId\<close> its handlers were registered with, its
  \<open>readyState\<close>, the payloads whose send succeeded in the order of the calls of
  \<open>ws.send\<close> (what the peer receives), and the code and reason of a close the relay
  asked for.
\<close>

record websocket =
  clientId :: string
  readyState :: ready_state
  sent :: "push_payload list"
  close_frame :: "(nat \<times> string) option"

text \<open>
  What an async function of the source keeps while it awaits the callback of a send:
  \<open>deliverPending\<close> its socket, the row whose send it awaits and the rows of its loop
  that follow; \<open>deliverIfConnected\<close>, and the request handler that awaits it, the row.
  Both keep the outcome that the callback will report. \<open>Finished\<close> is a function that
  has returned.
\<close>

datatype continuation =
    Replaying nat message_row "message_row list" bool
  | Delivering message_row bool
  | Finished

text \<open>
  Sockets are addressed by their position in \<open>sockets\<close>, and the async functions that
  have awaited a send by their position in \<open>awaiting\<close>; a new one is appended.
  \<open>pushes\<close> is the history of the sends that succeeded, oldest first, each with its
  socket and the row whose payload was sent. The relay does not keep it: the payload
  of a row does not carry the id of the row, and the properties below use the history
  to tell for which row a payload was sent.
\<close>

record relay =
  users :: "string \<rightharpoonup> int"
  prekeys :: "string \<rightharpoonup> prekey_bundle \<times> int"
  messages :: "messages_entry list"
  connections :: "string \<rightharpoonup> nat"
  sockets :: "websocket list"
  awaiting :: "continuation list"
  pushes :: "(nat \<times> message_row) list"

definition openDb :: relay where
  "openDb = \<lparr>users = Map.empty, prekeys = Map.empty, messages = [],
             connections = Map.empty, sockets = [], awaiting = [], pushes = []\<rparr>"

datatype http_error =
    Invalid_request
  | User_not_registered
  | Prekeys_not_found
  | Recipient_not_registered
  | Not_found
  | Internal_server_error

fun status :: "http_error \<Rightarrow> nat" where
  "status Invalid_request = 400"
| "status User_not_registered = 404"
| "status Prekeys_not_found = 404"
| "status Recipient_not_registered = 404"
| "status Not_found = 404"
| "status Internal_server_error = 500"

subsection \<open>Prepared statements\<close>

definition stmtUserInsert :: "relay \<Rightarrow> string \<Rightarrow> int \<Rightarrow> relay" where
  \<comment> \<open>INSERT OR IGNORE INTO users\<close>
  "stmtUserInsert s i now =
     (case users s i of
        Some _ \<Rightarrow> s
      | None \<Rightarrow> s\<lparr>users := (users s)(i \<mapsto> now)\<rparr>)"

definition stmtUserExists :: "relay \<Rightarrow> string \<Rightarrow> bool" where
  "stmtUserExists s i \<longleftrightarrow> users s i \<noteq> None"

definition stmtPrekeyUpsert :: "relay \<Rightarrow> string \<Rightarrow> prekey_bundle \<Rightarrow> int \<Rightarrow> relay" where
  \<comment> \<open>INSERT OR REPLACE INTO prekeys\<close>
  "stmtPrekeyUpsert s i b now = s\<lparr>prekeys := (prekeys s)(i \<mapsto> (b, now))\<rparr>"

definition stmtPrekeyGet :: "relay \<Rightarrow> string \<Rightarrow> prekey_bundle option" where
  "stmtPrekeyGet s i = map_option fst (prekeys s i)"

definition stmtMsgInsert :: "relay \<Rightarrow> message_row \<Rightarrow> relay" where
  \<comment> \<open>INSERT INTO messages (...) VALUES (?, ?, ?, ?, ?, 0); the caller checks the primary key\<close>
  "stmtMsgInsert s r = s\<lparr>messages := messages s @ [\<lparr>row = r, delivered = False\<rparr>]\<rparr>"

definition pending :: "string \<Rightarrow> messages_entry \<Rightarrow> bool" where
  "pending toId e \<longleftrightarrow> to_id (row e) = toId \<and> \<not> delivered e"

definition stmtMsgPending :: "relay \<Rightarrow> string \<Rightarrow> message_row list" where
  \<comment> \<open>WHERE to_id = ? AND delivered = 0 ORDER BY created_at ASC; rows of equal
      \<open>created_at\<close> are taken in table order\<close>
  "stmtMsgPending s toId = sort_key created_at (map row (filter (pending toId) (messages s)))"

definition stmtMsgMarkDelivered :: "relay \<Rightarrow> string \<Rightarrow> relay" where
  \<comment> \<open>UPDATE messages SET delivered = 1 WHERE id = ?\<close>
  "stmtMsgMarkDelivered s i =
     s\<lparr>messages := map (\<lambda>e. if row_id (row e) = i then e\<lparr>delivered := True\<rparr> else e) (messages s)\<rparr>"

subsection \<open>Push sends\<close>

definition buildMessagePayload :: "message_row \<Rightarrow> push_payload" where
  "buildMessagePayload r =
     \<lparr>payload_from = from_id r, payload_to = to_id r, payload_envelope = envelope_json r\<rparr>"

text \<open>
  \<open>sendWsMessage\<close> calls \<open>ws.send\<close> and resolves or rejects with its callback. The
  outcome \<open>ok\<close> is the environment's; a payload whose send succeeds reaches the peer, in
  the order of the calls. The caller awaits the callback, which fires later.
\<close>

definition sendWsMessage :: "relay \<Rightarrow> nat \<Rightarrow> push_payload \<Rightarrow> bool \<Rightarrow> relay" where
  "sendWsMessage s ws p ok =
     (if ok \<and> ws < length (sockets s)
      then s\<lparr>sockets := (sockets s)[ws := (sockets s ! ws)\<lparr>sent := sent (sockets s ! ws) @ [p]\<rparr>]\<rparr>
      else s)"

text \<open>\<open>sendWsMessage(ws, buildMessagePayload(row))\<close>, with the entry of the history.\<close>

definition push :: "relay \<Rightarrow> nat \<Rightarrow> message_row \<Rightarrow> bool \<Rightarrow> relay" where
  "push s ws r ok =
     (if ok \<and> ws < length (sockets s)
      then (sendWsMessage s ws (buildMessagePayload r) ok)\<lparr>pushes := pushes s @ [(ws, r)]\<rparr>
      else sendWsMessage s ws (buildMessagePayload r) ok)"

text \<open>
  The loop of \<open>deliverPending\<close> from the row it is at to its next \<open>await\<close>: with no row
  left the function returns; otherwise it calls \<open>sendWsMessage\<close> for the row, \<open>ok\<close> being
  the outcome of that send, and awaits.
\<close>

fun deliverPending_loop :: "relay \<Rightarrow> nat \<Rightarrow> message_row list \<Rightarrow> bool \<Rightarrow> continuation \<times> relay" where
  "deliverPending_loop s ws [] ok = (Finished, s)"
| "deliverPending_loop s ws (r # rows) ok = (Replaying ws r rows ok, push s ws r ok)"

text \<open>The call \<open>deliverPending(toId, ws)\<close>: it selects the rows and enters the loop.\<close>

definition deliverPending :: "relay \<Rightarrow> string \<Rightarrow> nat \<Rightarrow> bool \<Rightarrow> relay" where
  "deliverPending s toId ws ok =
     (case deliverPending_loop s ws (stmtMsgPending s toId) ok of
        (k, s') \<Rightarrow> s'\<lparr>awaiting := awaiting s' @ [k]\<rparr>)"

text \<open>
  The callback of the send that \<open>deliverPending\<close> awaits for the row \<open>r\<close>: after a
  send that succeeded the row is marked and the loop goes on with the rows that follow,
  \<open>ok'\<close> being the outcome of the next send; after a send that failed the loop is left
  (\<open>catch { break; }\<close>).
\<close>

definition deliverPending_resume ::
  "relay \<Rightarrow> nat \<Rightarrow> nat \<Rightarrow> message_row \<Rightarrow> message_row list \<Rightarrow> bool \<Rightarrow> bool \<Rightarrow> relay" where
  "deliverPending_resume s a ws r rows ok ok' =
     (if ok
      then (case deliverPending_loop (stmtMsgMarkDelivered s (row_id r)) ws rows ok' of
              (k, s') \<Rightarrow> s'\<lparr>awaiting := (awaiting s')[a := k]\<rparr>)
      else s\<lparr>awaiting := (awaiting s)[a := Finished]\<rparr>)"

text \<open>
  \<open>deliverIfConnected(row)\<close> up to its \<open>await\<close>: it returns \<open>false\<close> at once when the
  recipient holds no open socket (\<open>Some False\<close>), and otherwise calls \<open>sendWsMessage\<close> and
  awaits (\<open>None\<close>). Its continuation marks the row after a send that succeeded, and
  returns the outcome.
\<close>

definition deliverIfConnected :: "relay \<Rightarrow> message_row \<Rightarrow> bool \<Rightarrow> bool option \<times> relay" where
  "deliverIfConnected s r ok =
     (case connections s (to_id r) of
        None \<Rightarrow> (Some False, s)
      | Some ws \<Rightarrow>
          if \<not> ws < length (sockets s) \<or> readyState (sockets s ! ws) \<noteq> OPEN then (Some False, s)
          else (None, (push s ws r ok)\<lparr>awaiting := awaiting (push s ws r ok) @ [Delivering r ok]\<rparr>))"

definition deliverIfConnected_resume :: "relay \<Rightarrow> nat \<Rightarrow> message_row \<Rightarrow> bool \<Rightarrow> bool \<times> relay" where
  "deliverIfConnected_resume s a r ok =
     (if ok
      then (True, (stmtMsgMarkDelivered s (row_id r))\<lparr>awaiting := (awaiting s)[a := Finished]\<rparr>)
      else (False, s\<lparr>awaiting := (awaiting s)[a := Finished]\<rparr>))"

subsection \<open>Push connections\<close>

text \<open>\<open>handleUpgrade\<close> completes the handshake: a new socket, open, for \<open>clientId\<close>.\<close>

definition handleUpgrade :: "relay \<Rightarrow> string \<Rightarrow> relay" where
  "handleUpgrade s cid =
     s\<lparr>sockets := sockets s @ [\<lparr>clientId = cid, readyState = OPEN, sent = [], close_frame = None\<rparr>]\<rparr>"

definition ws_close :: "relay \<Rightarrow> nat \<Rightarrow> nat \<Rightarrow> string \<Rightarrow> relay" where
  \<comment> \<open>\<open>ws.close(code, reason)\<close>: an open socket starts its closing handshake\<close>
  "ws_close s ws code reason =
     (if ws < length (sockets s) \<and> readyState (sockets s ! ws) = OPEN
      then s\<lparr>sockets := (sockets s)[ws := (sockets s ! ws)\<lparr>readyState := CLOSING,
                                                           close_frame := Some (code, reason)\<rparr>]\<rparr>
      else s)"

text \<open>
  The handler of \<open>wss.on("connection")\<close> in its three steps: the socket that holds
  \<open>clientId\<close> is closed, then the new socket takes its place in \<open>connections\<close>, then
  \<open>void deliverPending(clientId, ws)\<close> starts the replay, which runs to its first \<open>await\<close>;
  \<open>ok\<close> is the outcome of the first send of the replay.
\<close>

definition supersede :: "relay \<Rightarrow> string \<Rightarrow> nat \<Rightarrow> relay" where
  "supersede s cid ws =
     (case connections s cid of
        Some existing \<Rightarrow> if existing \<noteq> ws then ws_close s existing 4000 ''superseded'' else s
      | None \<Rightarrow> s)"

definition connections_set :: "relay \<Rightarrow> string \<Rightarrow> nat \<Rightarrow> relay" where
  "connections_set s cid ws = s\<lparr>connections := (connections s)(cid \<mapsto> ws)\<rparr>"

definition on_connection :: "relay \<Rightarrow> nat \<Rightarrow> string \<Rightarrow> bool \<Rightarrow> relay" where
  "on_connection s ws cid ok = deliverPending (connections_set (supersede s cid ws) cid ws) cid ws ok"

text \<open>
  The handlers of a socket's \<open>close\<close> and \<open>error\<close> events. The socket library has
  left the state \<open>OPEN\<close> when it emits either: \<open>CLOSED\<close> at \<open>close\<close>, \<open>CLOSING\<close> at
  \<open>error\<close>.
\<close>

definition connections_drop :: "relay \<Rightarrow> nat \<Rightarrow> relay" where
  \<comment> \<open>if (connections.get(clientId) === ws) connections.delete(clientId)\<close>
  "connections_drop s ws =
     (if ws < length (sockets s) \<and> connections s (clientId (sockets s ! ws)) = Some ws
      then s\<lparr>connections := (connections s)(clientId (sockets s ! ws) := None)\<rparr>
      else s)"

definition set_readyState :: "relay \<Rightarrow> nat \<Rightarrow> ready_state \<Rightarrow> relay" where
  "set_readyState s ws st =
     (if ws < length (sockets s)
      then s\<lparr>sockets := (sockets s)[ws := (sockets s ! ws)\<lparr>readyState := st\<rparr>]\<rparr>
      else s)"

definition on_close :: "relay \<Rightarrow> nat \<Rightarrow> relay" where
  "on_close s ws = connections_drop (set_readyState s ws CLOSED) ws"

definition on_error :: "relay \<Rightarrow> nat \<Rightarrow> relay" where
  "on_error s ws = connections_drop (set_readyState s ws CLOSING) ws"

datatype upgrade_error = Bad_Request | Unauthorized

definition on_upgrade :: "relay \<Rightarrow> string option \<Rightarrow> bool \<Rightarrow> upgrade_error + relay" where
  "on_upgrade s client_id ok =
     (case client_id of
        None \<Rightarrow> Inl Bad_Request
      | Some cid \<Rightarrow>
          if cid = [] then Inl Bad_Request
          else if \<not> stmtUserExists s cid then Inl Unauthorized
          else Inr (on_connection (handleUpgrade s cid) (length (sockets s)) cid ok))"

subsection \<open>Request handlers\<close>

definition post_register :: "relay \<Rightarrow> string \<Rightarrow> int \<Rightarrow> (http_error + string) \<times> relay" where
  "post_register s i now =
     (if \<not> RegisterSchema i then (Inl Invalid_request, s)
      else (Inr i, stmtUserInsert s i now))"

definition post_prekeys :: "relay \<Rightarrow> string \<Rightarrow> prekey_bundle \<Rightarrow> int \<Rightarrow> (http_error + unit) \<times> relay" where
  "post_prekeys s i b now =
     (if \<not> PreKeyUploadSchema i b then (Inl Invalid_request, s)
      else if \<not> stmtUserExists s i then (Inl User_not_registered, s)
      else (Inr (), stmtPrekeyUpsert s i b now))"







record submit_response =
  queued :: bool
  delivered_now :: bool

text \<open>
  \<open>POST /v1/messages\<close> up to its \<open>await\<close>. The insert raises when \<open>messageId\<close> is already
  a primary key of the table; the handler's \<open>catch\<close> answers 500. The handler answers at
  once (\<open>Some\<close>) or awaits \<open>deliverIfConnected\<close> (\<open>None\<close>), and then answers when the
  callback of the send has fired.
\<close>

definition post_messages ::
  "relay \<Rightarrow> string \<Rightarrow> string \<Rightarrow> envelope \<Rightarrow> string \<Rightarrow> int \<Rightarrow> bool \<Rightarrow>
   (http_error + submit_response) option \<times> relay" where
  "post_messages s f t e messageId createdAt ok =
     (if \<not> MessageSchema f t e then (Some (Inl Invalid_request), s)
      else if \<not> stmtUserExists s t then (Some (Inl Recipient_not_registered), s)
      else if messageId \<in> set (map (row_id \<circ> row) (messages s)) then (Some (Inl Internal_server_error), s)
      else
        let r = \<lparr>row_id = messageId, to_id = t, from_id = f, envelope_json = e, created_at = createdAt\<rparr>;
            (d, s') = deliverIfConnected (stmtMsgInsert s r) r ok
        in (map_option (\<lambda>d. Inr \<lparr>queued = True, delivered_now = d\<rparr>) d, s'))"

definition post_messages_resume :: "relay \<Rightarrow> nat \<Rightarrow> message_row \<Rightarrow> bool \<Rightarrow> submit_response \<times> relay" where
  "post_messages_resume s a r ok =
     (case deliverIfConnected_resume s a r ok of
        (d, s') \<Rightarrow> (\<lparr>queued = True, delivered_now = d\<rparr>, s'))"

text \<open>
  The callback of the send that the async function at the position \<open>a\<close> awaits: its
  continuation runs, and answers the request when it is that of a submit. \<open>ok'\<close> is the
  outcome of the next send if the continuation makes one.
\<close>

definition callback :: "relay \<Rightarrow> nat \<Rightarrow> bool \<Rightarrow> submit_response option \<times> relay" where
  "callback s a ok' =
     (if a < length (awaiting s)
      then (case awaiting s ! a of
              Replaying ws r rows ok \<Rightarrow> (None, deliverPending_resume s a ws r rows ok ok')
            | Delivering r ok \<Rightarrow>
                (case post_messages_resume s a r ok of (resp, s') \<Rightarrow> (Some resp, s'))
            | Finished \<Rightarrow> (None, s))
      else (None, s))"

subsection \<open>Runs of the relay\<close>

text \<open>
  The events of the relay: the requests that change its state, a connection, the
  callback of an awaited send, and the \<open>close\<close> and \<open>error\<close> events of a socket. A run is
  any sequence of them, so callbacks fire in any order and at any distance from their
  sends.
\<close>

datatype relay_event =
    Register string int
  | Publish string prekey_bundle int
  | Submit string string envelope string int bool
  | Upgrade "string option" bool
  | Callback nat bool
  | WsClose nat
  | WsError nat

fun step :: "relay \<Rightarrow> relay_event \<Rightarrow> relay" where
  "step s (Register i now) = snd (post_register s i now)"
| "step s (Publish i b now) = snd (post_prekeys s i b now)"
| "step s (Submit f t e u now ok) = snd (post_messages s f t e u now ok)"
| "step s (Upgrade c ok) = (case on_upgrade s c ok of Inl _ \<Rightarrow> s | Inr s' \<Rightarrow> s')"
| "step s (Callback a ok') = snd (callback s a ok')"
| "step s (WsClose ws) = on_close s ws"
| "step s (WsError ws) = on_error s ws"

definition run :: "relay_event list \<Rightarrow> relay" where
  "run evs = foldl step openDb evs"

text \<open>The open sockets of an identity.\<close>

definition live :: "relay \<Rightarrow> string \<Rightarrow> nat list" where
  "live s cid =
     filter (\<lambda>h. clientId (sockets s ! h) = cid \<and> readyState (sockets s ! h) = OPEN)
       [0 ..< length (sockets s)]"

subsection \<open>Notions used to state the properties of the relay\<close>



text \<open>Every open socket is the one \<open>connections\<close> holds for its identity.\<close>

definition authoritative_open :: "relay \<Rightarrow> bool" where
  "authoritative_open s \<longleftrightarrow>
     (\<forall>h < length (sockets s). readyState (sockets s ! h) = OPEN \<longrightarrow>
        connections s (clientId (sockets s ! h)) = Some h)"

text \<open>Every entry of \<open>connections\<close> is a socket of that identity.\<close>

definition conn_wf :: "relay \<Rightarrow> bool" where
  "conn_wf s \<longleftrightarrow>
     (\<forall>c h. connections s c = Some h \<longrightarrow> h < length (sockets s) \<and> clientId (sockets s ! h) = c)"


text \<open>
  The rows whose payload was sent with success on the socket \<open>w\<close>, oldest first; the
  outcomes of the callbacks of the async function at the position \<open>a\<close> along a list of
  events; the rows of a list up to the first whose send fails, \<open>os\<close> being the outcomes
  of the sends in order; and whether the row with the id \<open>i\<close> is marked delivered.
\<close>

definition pushed_on :: "relay \<Rightarrow> nat \<Rightarrow> message_row list" where
  "pushed_on s w = map snd (filter (\<lambda>p. fst p = w) (pushes s))"


fun upto_failure :: "'a list \<Rightarrow> bool list \<Rightarrow> 'a list" where
  "upto_failure [] os = []"
| "upto_failure (r # rows) [] = []"
| "upto_failure (r # rows) (ok # os) = (if ok then r # upto_failure rows os else [])"

definition is_delivered :: "relay \<Rightarrow> string \<Rightarrow> bool" where
  "is_delivered s i \<longleftrightarrow> (\<exists>e \<in> set (messages s). row_id (row e) = i \<and> delivered e)"

subsection \<open>Concrete requests\<close>

definition demo_envelope :: "string \<Rightarrow> envelope" where
  "demo_envelope text =
     \<lparr>env_version = 1, senderId = ''alice'', recipientId = ''bob'', sessionId = ''alice::bob'',
      env_type = 1, env_body = text, env_timestamp = 1\<rparr>"

definition demo_row :: "string \<Rightarrow> string \<Rightarrow> int \<Rightarrow> message_row" where
  "demo_row u text t =
     \<lparr>row_id = u, to_id = ''bob'', from_id = ''alice'', envelope_json = demo_envelope text,
      created_at = t\<rparr>"

definition demo_submit :: "string \<Rightarrow> string \<Rightarrow> int \<Rightarrow> relay_event" where
  "demo_submit u text t = Submit ''alice'' ''bob'' (demo_envelope text) u t True"

definition demo_bundle :: "string \<Rightarrow> int \<Rightarrow> prekey_bundle" where
  "demo_bundle i n =
     \<lparr>bundle_id = i, deviceId = 1, registrationId = 4711, identityKey = ''BQ=='',
      signedPreKey = \<lparr>keyId = n, publicKey = ''BQ=='', signature = ''c2ln''\<rparr>,
      preKey = \<lparr>pk_keyId = n, pk_publicKey = ''BQ==''\<rparr>,
      kyberPreKey = \<lparr>keyId = n, publicKey = ''BQ=='', signature = ''c2ln''\<rparr>\<rparr>"

subsection \<open>Invariants of the runs\<close>

text \<open>The identity of a socket and whether it is open, for indices in and out of range.\<close>

definition client_of :: "relay \<Rightarrow> nat \<Rightarrow> string option" where
  "client_of s h = (if h < length (sockets s) then Some (clientId (sockets s ! h)) else None)"

definition is_open :: "relay \<Rightarrow> nat \<Rightarrow> bool" where
  "is_open s h \<longleftrightarrow> h < length (sockets s) \<and> readyState (sockets s ! h) = OPEN"




text \<open>What a socket has received is the payloads of the history's rows for it, in order.\<close>

definition sent_pushes :: "relay \<Rightarrow> bool" where
  "sent_pushes s \<longleftrightarrow>
     (\<forall>h < length (sockets s). sent (sockets s ! h) = map buildMessagePayload (pushed_on s h))"


subsection \<open>Following one row and one replay\<close>







subsection \<open>Node's URL parser and decodeURIComponent on plain request targets\<close>













section \<open>Local encrypted store: packages/signal-core/src/crypto.ts and store.ts\<close>

text \<open>
  The store keeps every value as \<open>iv || tag || ciphertext\<close> of its tagged JSON text.
  What the source takes from Node and from the protocol library is not part of the
  repository: AES-256-GCM, base64, the JSON text of a tree, the random generator, the
  clock (the record \<open>node_lib\<close>), and the key and record types of the protocol library
  (the record \<open>libsignal\<close>). Every function takes them as its first argument; the properties
  that hold for every platform are proved for every platform, and the properties that
  need one of its laws (a sealed text opens to itself, a base64 text decodes to its
  bytes, a JSON text parses to its tree, a serialized record deserializes to itself)
  name the law as a hypothesis.
\<close>

subsection \<open>JavaScript values\<close>

type_synonym byte = "8 word"
type_synonym bytes = "byte list"

text \<open>
  The values handed to the store: JSON-like structures (numbers are the integers; the
  members of an object have distinct keys) with binary leaves, an \<open>ArrayBuffer\<close>, a
  \<open>Uint8Array\<close> or a view of another kind over the bytes it shows.
\<close>

datatype jsval =
    JNull
  | JBool bool
  | JNum int
  | JStr string
  | JArr "jsval list"
  | JObj "(string \<times> jsval) list"
  | JArrayBuffer bytes
  | JUint8Array bytes
  | JView bytes

text \<open>
  The errors the source raises or lets pass: the failure of \<open>decipher.final()\<close> (the
  authentication tag does not verify), the failures of \<open>JSON.parse\<close>, of the conversions
  of Node and of the protocol library, and \<open>new Error(message)\<close>.
\<close>

datatype js_error = TamperOrWrongPassphrase | SyntaxError | TypeError | LibSignalError | Error string

datatype private_key = PrivateKey bytes
datatype public_key = PublicKey bytes
datatype kem_key_pair = KEMKeyPair bytes bytes
datatype session_record = SessionRecord bytes

record identity_key_pair =
  ik_public :: public_key
  ik_private :: private_key

record pre_key_record =
  pkr_id :: int
  pkr_public :: public_key
  pkr_private :: private_key

record signed_pre_key_record =
  spk_id :: int
  spk_timestamp :: int
  spk_public :: public_key
  spk_private :: private_key
  spk_signature :: bytes

record kyber_pre_key_record =
  kpk_id :: int
  kpk_timestamp :: int
  kpk_key_pair :: kem_key_pair
  kpk_signature :: bytes

text \<open>The argument of \<open>PreKeyBundle.new\<close>, in the order of the source.\<close>

record pre_key_bundle_args =
  pkb_registrationId :: int
  pkb_deviceId :: int
  pkb_preKeyId :: int
  pkb_preKey :: public_key
  pkb_signedPreKeyId :: int
  pkb_signedPreKey :: public_key
  pkb_signedPreKeySignature :: bytes
  pkb_identityKey :: public_key
  pkb_kyberPreKeyId :: int
  pkb_kyberPreKey :: bytes
  pkb_kyberPreKeySignature :: bytes


record node_lib =
  gcm_seal :: "bytes \<Rightarrow> bytes \<Rightarrow> bytes \<Rightarrow> bytes \<times> bytes"
  gcm_open :: "bytes \<Rightarrow> bytes \<Rightarrow> bytes \<Rightarrow> bytes \<Rightarrow> bytes option"
  base64_of :: "bytes \<Rightarrow> string"
  Buffer_from_base64 :: "jsval option \<Rightarrow> bytes option"
  JSON_text :: "jsval \<Rightarrow> bytes"
  JSON_tree :: "bytes \<Rightarrow> jsval option"
  utf8_of :: "string \<Rightarrow> bytes"
  utf8_text :: "bytes \<Rightarrow> string"
  randomBytes :: "nat \<Rightarrow> nat \<Rightarrow> bytes"
  randomInt :: "nat \<Rightarrow> int \<Rightarrow> int \<Rightarrow> int"
  Date_now :: "nat \<Rightarrow> int"

text \<open>
  The protocol library: its generators (by the number of the draw), the conversions of
  its types, and its session functions on the records the stores hand to it. A
  message of the pre-key kind names the pre-keys it was made for (\<open>prekey_message_ids\<close>:
  the one-time pre-key if any, the signed pre-key, the post-quantum pre-key if any).
\<close>

record libsignal =
  PrivateKey_generate :: "nat \<Rightarrow> private_key"
  getPublicKey :: "private_key \<Rightarrow> public_key"
  sign :: "private_key \<Rightarrow> bytes \<Rightarrow> bytes"
  PublicKey_serialize :: "public_key \<Rightarrow> bytes"
  PublicKey_deserialize :: "bytes \<Rightarrow> public_key option"
  KEMKeyPair_generate :: "nat \<Rightarrow> kem_key_pair"
  KEMPublicKey_serialize :: "kem_key_pair \<Rightarrow> bytes"
  KEMPublicKey_deserialize :: "bytes \<Rightarrow> bytes option"
  IdentityKeyPair_generate :: "nat \<Rightarrow> identity_key_pair"
  IdentityKeyPair_serialize :: "identity_key_pair \<Rightarrow> bytes"
  IdentityKeyPair_deserialize :: "bytes \<Rightarrow> identity_key_pair option"
  PreKeyRecord_serialize :: "pre_key_record \<Rightarrow> bytes"
  PreKeyRecord_deserialize :: "bytes \<Rightarrow> pre_key_record option"
  SignedPreKeyRecord_serialize :: "signed_pre_key_record \<Rightarrow> bytes"
  SignedPreKeyRecord_deserialize :: "bytes \<Rightarrow> signed_pre_key_record option"
  KyberPreKeyRecord_serialize :: "kyber_pre_key_record \<Rightarrow> bytes"
  KyberPreKeyRecord_deserialize :: "bytes \<Rightarrow> kyber_pre_key_record option"
  SessionRecord_serialize :: "session_record \<Rightarrow> bytes"
  SessionRecord_deserialize :: "bytes \<Rightarrow> session_record option"
  session_of_bundle ::
    "pre_key_bundle_args \<Rightarrow> identity_key_pair \<Rightarrow> session_record option \<Rightarrow> session_record option"
  session_encrypt :: "session_record \<Rightarrow> bytes \<Rightarrow> (int \<times> bytes) \<times> session_record \<times> public_key"
  session_decrypt :: "session_record \<Rightarrow> bytes \<Rightarrow> (bytes \<times> session_record \<times> public_key) option"
  prekey_message_ids :: "bytes \<Rightarrow> (int option \<times> int \<times> int option) option"
  session_decrypt_prekey ::
    "session_record option \<Rightarrow> bytes \<Rightarrow> identity_key_pair \<Rightarrow> pre_key_record option \<Rightarrow>
     signed_pre_key_record \<Rightarrow> kyber_pre_key_record option \<Rightarrow>
     (bytes \<times> session_record \<times> public_key) option"
  CiphertextMessageType_PreKey :: int
  CiphertextMessageType_Whisper :: int

record platform =
  node :: node_lib
  lib :: libsignal

subsection \<open>crypto.ts\<close>

definition IV_LENGTH :: nat where "IV_LENGTH = 12"
definition TAG_LENGTH :: nat where "TAG_LENGTH = 16"

text \<open>\<open>n\<close> numbers the draws from the random generator and the readings of the clock.\<close>

definition encryptBuffer :: "node_lib \<Rightarrow> bytes \<Rightarrow> bytes \<Rightarrow> nat \<Rightarrow> bytes" where
  "encryptBuffer L k plaintext n =
     (let iv = randomBytes L n IV_LENGTH;
          (ciphertext, tag) = gcm_seal L k iv plaintext
      in iv @ tag @ ciphertext)"

definition decryptBuffer :: "node_lib \<Rightarrow> bytes \<Rightarrow> bytes \<Rightarrow> js_error + bytes" where
  "decryptBuffer L k payload =
     (let iv = take IV_LENGTH payload;
          tag = take TAG_LENGTH (drop IV_LENGTH payload);
          ciphertext = drop (IV_LENGTH + TAG_LENGTH) payload
      in case gcm_open L k iv tag ciphertext of
           None \<Rightarrow> Inl TamperOrWrongPassphrase
         | Some plaintext \<Rightarrow> Inr plaintext)"

text \<open>
  The replacer of \<open>encodeValue\<close>, as \<open>JSON.stringify\<close> applies it from the root down,
  and the reviver of \<open>decodeValue\<close>, as \<open>JSON.parse\<close> applies it from the leaves up.
\<close>

definition tagged :: "node_lib \<Rightarrow> bytes \<Rightarrow> jsval" where
  "tagged L bs = JObj [(''__type'', JStr ''ab''), (''data'', JStr (base64_of L bs))]"

fun replacer :: "node_lib \<Rightarrow> jsval \<Rightarrow> jsval" where
  "replacer L (JArrayBuffer bs) = tagged L bs"
| "replacer L (JUint8Array bs) = tagged L bs"
| "replacer L (JView bs) = tagged L bs"
| "replacer L (JArr xs) = JArr (map (replacer L) xs)"
| "replacer L (JObj kvs) = JObj (map (\<lambda>kv. (fst kv, replacer L (snd kv))) kvs)"
| "replacer L v = v"

fun collect :: "('e + 'a) list \<Rightarrow> 'e + 'a list" where
  "collect [] = Inr []"
| "collect (x # xs) =
     (case x of
        Inl e \<Rightarrow> Inl e
      | Inr y \<Rightarrow> (case collect xs of Inl e \<Rightarrow> Inl e | Inr ys \<Rightarrow> Inr (y # ys)))"

fun reviver :: "node_lib \<Rightarrow> jsval \<Rightarrow> js_error + jsval" where
  "reviver L (JArr xs) =
     (case collect (map (reviver L) xs) of Inl e \<Rightarrow> Inl e | Inr ys \<Rightarrow> Inr (JArr ys))"
| "reviver L (JObj kvs) =
     (case collect (map (\<lambda>kv. case reviver L (snd kv) of
                                Inl e \<Rightarrow> Inl e
                              | Inr v \<Rightarrow> Inr (fst kv, v)) kvs) of
        Inl e \<Rightarrow> Inl e
      | Inr kvs' \<Rightarrow>
          if map_of kvs' ''__type'' = Some (JStr ''ab'')
          then (case Buffer_from_base64 L (map_of kvs' ''data'') of
                  None \<Rightarrow> Inl TypeError
                | Some bs \<Rightarrow> Inr (JUint8Array bs))
          else Inr (JObj kvs'))"
| "reviver L v = Inr v"

definition encodeValue :: "node_lib \<Rightarrow> jsval \<Rightarrow> bytes" where
  "encodeValue L v = JSON_text L (replacer L v)"

definition decodeValue :: "node_lib \<Rightarrow> bytes \<Rightarrow> js_error + jsval" where
  "decodeValue L text =
     (case JSON_tree L text of
        None \<Rightarrow> Inl SyntaxError
      | Some j \<Rightarrow> reviver L j)"

definition encryptJson :: "node_lib \<Rightarrow> bytes \<Rightarrow> jsval \<Rightarrow> nat \<Rightarrow> bytes" where
  "encryptJson L k v n = encryptBuffer L k (encodeValue L v) n"

definition decryptJson :: "node_lib \<Rightarrow> bytes \<Rightarrow> bytes \<Rightarrow> js_error + jsval" where
  "decryptJson L k payload =
     (case decryptBuffer L k payload of
        Inl e \<Rightarrow> Inl e
      | Inr decoded \<Rightarrow> decodeValue L decoded)"



subsection \<open>store.ts: EncryptedStore\<close>

text \<open>
  The table \<open>kv\<close>, the rows of the table \<open>meta\<close> under the keys \<open>localId\<close>, \<open>deviceId\<close> and
  \<open>registrationId\<close> with the types their accessors give them, the key derived when the
  store was opened, and the number of draws made so far.
\<close>

record encrypted_store =
  meta_localId :: "string option"
  meta_deviceId :: "int option"
  meta_registrationId :: "int option"
  db_kv :: "string \<rightharpoonup> bytes"
  store_key :: bytes
  draws :: nat

definition store_get :: "node_lib \<Rightarrow> encrypted_store \<Rightarrow> string \<Rightarrow> js_error + jsval option" where
  "store_get L s k =
     (case db_kv s k of
        None \<Rightarrow> Inr None
      | Some payload \<Rightarrow>
          (case decryptJson L (store_key s) payload of
             Inl e \<Rightarrow> Inl e
           | Inr v \<Rightarrow> Inr (Some v)))"

definition store_set :: "node_lib \<Rightarrow> encrypted_store \<Rightarrow> string \<Rightarrow> jsval \<Rightarrow> encrypted_store" where
  "store_set L s k v =
     s\<lparr>db_kv := (db_kv s)(k \<mapsto> encryptJson L (store_key s) v (draws s)), draws := Suc (draws s)\<rparr>"


definition getLocalId :: "encrypted_store \<Rightarrow> string option" where
  "getLocalId s = meta_localId s"

definition setLocalId :: "encrypted_store \<Rightarrow> string \<Rightarrow> encrypted_store" where
  "setLocalId s i = s\<lparr>meta_localId := Some i\<rparr>"

definition getDeviceId :: "encrypted_store \<Rightarrow> int option" where
  "getDeviceId s = meta_deviceId s"

definition setDeviceId :: "encrypted_store \<Rightarrow> int \<Rightarrow> encrypted_store" where
  "setDeviceId s i = s\<lparr>meta_deviceId := Some i\<rparr>"

definition getRegistrationId :: "encrypted_store \<Rightarrow> int option" where
  "getRegistrationId s = meta_registrationId s"

definition setRegistrationId :: "encrypted_store \<Rightarrow> int \<Rightarrow> encrypted_store" where
  "setRegistrationId s i = s\<lparr>meta_registrationId := Some i\<rparr>"

subsection \<open>Numbers in keys and messages\<close>

text \<open>The decimal text of an integer, as a template literal or \<open>+\<close> renders a number.\<close>

definition digit :: "nat \<Rightarrow> char" where
  "digit d = ''0123456789'' ! d"

fun show_nat :: "nat \<Rightarrow> string" where
  "show_nat n = (if n < 10 then [digit n] else show_nat (n div 10) @ [digit (n mod 10)])"

declare show_nat.simps [simp del]

definition show_int :: "int \<Rightarrow> string" where
  "show_int i = (if i < 0 then CHR ''-'' # show_nat (nat (- i)) else show_nat (nat i))"

text \<open>What \<open>if (!x)\<close> takes for absent: \<open>undefined\<close>, \<open>null\<close>, \<open>false\<close>, \<open>0\<close> and the empty string.\<close>

fun falsy :: "jsval option \<Rightarrow> bool" where
  "falsy None = True"
| "falsy (Some JNull) = True"
| "falsy (Some (JBool b)) = (\<not> b)"
| "falsy (Some (JNum n)) = (n = 0)"
| "falsy (Some (JStr s)) = (s = [])"
| "falsy (Some v) = False"

subsection \<open>store.ts: the stores of the protocol library\<close>

text \<open>
  A function that writes to the store and may raise gives its result or its error
  together with the store it leaves: what was written before a \<open>throw\<close> stays written.
\<close>

definition tick :: "encrypted_store \<Rightarrow> encrypted_store" where
  "tick s = s\<lparr>draws := Suc (draws s)\<rparr>"

text \<open>\<open>X.deserialize(stored)\<close> for a stored value: the library takes a \<open>Uint8Array\<close>.\<close>

definition deserialize :: "(bytes \<Rightarrow> 'a option) \<Rightarrow> jsval \<Rightarrow> js_error + 'a" where
  "deserialize f stored =
     (case stored of
        JUint8Array bs \<Rightarrow> (case f bs of None \<Rightarrow> Inl LibSignalError | Some r \<Rightarrow> Inr r)
      | _ \<Rightarrow> Inl TypeError)"


definition loadIdentityKeyPair :: "platform \<Rightarrow> encrypted_store \<Rightarrow> js_error + identity_key_pair" where
  "loadIdentityKeyPair P s =
     (case store_get (node P) s ''local:identityKeyPair'' of
        Inl e \<Rightarrow> Inl e
      | Inr data \<Rightarrow>
          if falsy data then Inl (Error ''Identity key pair not found. Run 'mega init'.'')
          else deserialize (IdentityKeyPair_deserialize (lib P)) (the data))"

definition saveIdentityKeyPair :: "platform \<Rightarrow> encrypted_store \<Rightarrow> identity_key_pair \<Rightarrow> encrypted_store" where
  "saveIdentityKeyPair P s pair =
     store_set (node P) s ''local:identityKeyPair'' (JUint8Array (IdentityKeyPair_serialize (lib P) pair))"

text \<open>SqliteIdentityStore\<close>

definition getIdentityKey :: "platform \<Rightarrow> encrypted_store \<Rightarrow> js_error + private_key" where
  "getIdentityKey P s =
     (case loadIdentityKeyPair P s of Inl e \<Rightarrow> Inl e | Inr pair \<Rightarrow> Inr (ik_private pair))"

definition getLocalRegistrationId :: "encrypted_store \<Rightarrow> js_error + int" where
  "getLocalRegistrationId s =
     (case getRegistrationId s of
        None \<Rightarrow> Inl (Error ''Registration id not found. Run 'mega init'.'')
      | Some v \<Rightarrow> Inr v)"








text \<open>SqlitePreKeyStore\<close>

definition prekey_key :: "int \<Rightarrow> string" where
  "prekey_key i = ''prekey:'' @ show_int i"

definition prekey_used_key :: "int \<Rightarrow> string" where
  "prekey_used_key i = ''prekey:used:'' @ show_int i"

definition savePreKey :: "platform \<Rightarrow> encrypted_store \<Rightarrow> int \<Rightarrow> pre_key_record \<Rightarrow> encrypted_store" where
  "savePreKey P s i r =
     store_set (node P) s (prekey_key i) (JUint8Array (PreKeyRecord_serialize (lib P) r))"

definition getPreKey :: "platform \<Rightarrow> encrypted_store \<Rightarrow> int \<Rightarrow> js_error + pre_key_record" where
  "getPreKey P s i =
     (case store_get (node P) s (prekey_key i) of
        Inl e \<Rightarrow> Inl e
      | Inr stored \<Rightarrow>
          if falsy stored then Inl (Error (''PreKey '' @ show_int i @ '' not found''))
          else deserialize (PreKeyRecord_deserialize (lib P)) (the stored))"

definition removePreKey :: "platform \<Rightarrow> encrypted_store \<Rightarrow> int \<Rightarrow> encrypted_store" where
  \<comment> \<open>Keep prekeys for this local demo stack to tolerate repeated/stale prekey bundles.\<close>
  "removePreKey P s i =
     store_set (node P) (tick s) (prekey_used_key i)
       (JObj [(''usedAt'', JNum (Date_now (node P) (draws s)))])"

text \<open>SqliteSignedPreKeyStore\<close>

definition signedprekey_key :: "int \<Rightarrow> string" where
  "signedprekey_key i = ''signedprekey:'' @ show_int i"

definition saveSignedPreKey ::
  "platform \<Rightarrow> encrypted_store \<Rightarrow> int \<Rightarrow> signed_pre_key_record \<Rightarrow> encrypted_store" where
  "saveSignedPreKey P s i r =
     store_set (node P) s (signedprekey_key i) (JUint8Array (SignedPreKeyRecord_serialize (lib P) r))"

definition getSignedPreKey ::
  "platform \<Rightarrow> encrypted_store \<Rightarrow> int \<Rightarrow> js_error + signed_pre_key_record" where
  "getSignedPreKey P s i =
     (case store_get (node P) s (signedprekey_key i) of
        Inl e \<Rightarrow> Inl e
      | Inr stored \<Rightarrow>
          if falsy stored then Inl (Error (''SignedPreKey '' @ show_int i @ '' not found''))
          else deserialize (SignedPreKeyRecord_deserialize (lib P)) (the stored))"

text \<open>SqliteKyberPreKeyStore\<close>

definition kyberprekey_key :: "int \<Rightarrow> string" where
  "kyberprekey_key i = ''kyberprekey:'' @ show_int i"


definition saveKyberPreKey ::
  "platform \<Rightarrow> encrypted_store \<Rightarrow> int \<Rightarrow> kyber_pre_key_record \<Rightarrow> encrypted_store" where
  "saveKyberPreKey P s i r =
     store_set (node P) s (kyberprekey_key i) (JUint8Array (KyberPreKeyRecord_serialize (lib P) r))"

definition getKyberPreKey ::
  "platform \<Rightarrow> encrypted_store \<Rightarrow> int \<Rightarrow> js_error + kyber_pre_key_record" where
  "getKyberPreKey P s i =
     (case store_get (node P) s (kyberprekey_key i) of
        Inl e \<Rightarrow> Inl e
      | Inr stored \<Rightarrow>
          if falsy stored then Inl (Error (''KyberPreKey '' @ show_int i @ '' not found''))
          else deserialize (KyberPreKeyRecord_deserialize (lib P)) (the stored))"


section \<open>Identity, pre-keys, bundles and sessions: packages/signal-core/src/index.ts\<close>

definition COUNTER_PREKEY :: string where "COUNTER_PREKEY = ''counter:prekey''"
definition COUNTER_SIGNED_PREKEY :: string where "COUNTER_SIGNED_PREKEY = ''counter:signedprekey''"
definition COUNTER_KYBER_PREKEY :: string where "COUNTER_KYBER_PREKEY = ''counter:kyberprekey''"

definition getLocalIdentity :: "encrypted_store \<Rightarrow> string option" where
  "getLocalIdentity s = getLocalId s"

definition SignalState_getDeviceId :: "encrypted_store \<Rightarrow> int" where
  "SignalState_getDeviceId s = (case getDeviceId s of None \<Rightarrow> 1 | Some d \<Rightarrow> d)"

definition initializeIdentity :: "platform \<Rightarrow> encrypted_store \<Rightarrow> string \<Rightarrow> int \<Rightarrow> encrypted_store" where
  "initializeIdentity P s localId dev =
     (let registrationId = randomInt (node P) (draws s) 1 16380;
          identityKeyPair = IdentityKeyPair_generate (lib P) (Suc (draws s));
          s1 = tick (tick s);
          s2 = setLocalId s1 localId;
          s3 = setDeviceId s2 dev;
          s4 = setRegistrationId s3 registrationId
      in saveIdentityKeyPair P s4 identityKeyPair)"

text \<open>
  \<open>state.getValue<number>(key) ?? start\<close>: the start value for \<open>undefined\<close> and \<open>null\<close>, and
  the number stored. A stored value of another type, which the type of \<open>getValue\<close>
  excludes and nothing in the source writes, is taken as a type error.
\<close>

fun number_or :: "jsval option \<Rightarrow> int \<Rightarrow> js_error + int" where
  "number_or None start = Inr start"
| "number_or (Some JNull) start = Inr start"
| "number_or (Some (JNum n)) start = Inr n"
| "number_or (Some v) start = Inl TypeError"

definition getCounter :: "platform \<Rightarrow> encrypted_store \<Rightarrow> string \<Rightarrow> int \<Rightarrow> js_error + int" where
  "getCounter P s k start =
     (case store_get (node P) s k of Inl e \<Rightarrow> Inl e | Inr v \<Rightarrow> number_or v start)"

definition nextCounter ::
  "platform \<Rightarrow> encrypted_store \<Rightarrow> string \<Rightarrow> int \<Rightarrow> (js_error + int) \<times> encrypted_store" where
  "nextCounter P s k start =
     (case getCounter P s k start of
        Inl e \<Rightarrow> (Inl e, s)
      | Inr current \<Rightarrow> (Inr current, store_set (node P) s k (JNum (current + 1))))"

text \<open>The loop of \<open>generatePreKeys\<close>, by the number of rounds still to run.\<close>

fun preKey_loop :: "platform \<Rightarrow> nat \<Rightarrow> encrypted_store \<Rightarrow> (js_error + unit) \<times> encrypted_store" where
  "preKey_loop P 0 s = (Inr (), s)"
| "preKey_loop P (Suc n) s =
     (case nextCounter P s COUNTER_PREKEY 1 of
        (Inl e, s1) \<Rightarrow> (Inl e, s1)
      | (Inr preKeyId, s1) \<Rightarrow>
          let preKeyPrivate = PrivateKey_generate (lib P) (draws s1);
              preKeyRecord = \<lparr>pkr_id = preKeyId,
                              pkr_public = getPublicKey (lib P) preKeyPrivate,
                              pkr_private = preKeyPrivate\<rparr>
          in preKey_loop P n (savePreKey P (tick s1) preKeyId preKeyRecord))"

definition generateSignedPreKey ::
  "platform \<Rightarrow> identity_key_pair \<Rightarrow> encrypted_store \<Rightarrow> (js_error + unit) \<times> encrypted_store" where
  "generateSignedPreKey P identityKeyPair s =
     (case nextCounter P s COUNTER_SIGNED_PREKEY 1 of
        (Inl e, s1) \<Rightarrow> (Inl e, s1)
      | (Inr signedPreKeyId, s1) \<Rightarrow>
          let signedPreKeyPrivate = PrivateKey_generate (lib P) (draws s1);
              signedPreKeyPublic = getPublicKey (lib P) signedPreKeyPrivate;
              signedSignature = sign (lib P) (ik_private identityKeyPair)
                                  (PublicKey_serialize (lib P) signedPreKeyPublic);
              signedPreKeyRecord =
                \<lparr>spk_id = signedPreKeyId, spk_timestamp = Date_now (node P) (Suc (draws s1)),
                 spk_public = signedPreKeyPublic, spk_private = signedPreKeyPrivate,
                 spk_signature = signedSignature\<rparr>
          in (Inr (), saveSignedPreKey P (tick (tick s1)) signedPreKeyId signedPreKeyRecord))"

definition generateKyberPreKey ::
  "platform \<Rightarrow> identity_key_pair \<Rightarrow> encrypted_store \<Rightarrow> (js_error + unit) \<times> encrypted_store" where
  "generateKyberPreKey P identityKeyPair s =
     (case nextCounter P s COUNTER_KYBER_PREKEY 1 of
        (Inl e, s1) \<Rightarrow> (Inl e, s1)
      | (Inr kyberPreKeyId, s1) \<Rightarrow>
          let kemKeyPair = KEMKeyPair_generate (lib P) (draws s1);
              kyberSignature = sign (lib P) (ik_private identityKeyPair)
                                 (KEMPublicKey_serialize (lib P) kemKeyPair);
              kyberRecord =
                \<lparr>kpk_id = kyberPreKeyId, kpk_timestamp = Date_now (node P) (Suc (draws s1)),
                 kpk_key_pair = kemKeyPair, kpk_signature = kyberSignature\<rparr>
          in (Inr (), saveKyberPreKey P (tick (tick s1)) kyberPreKeyId kyberRecord))"

definition generatePreKeys ::
  "platform \<Rightarrow> encrypted_store \<Rightarrow> nat \<Rightarrow> (js_error + unit) \<times> encrypted_store" where
  "generatePreKeys P s count =
     (case loadIdentityKeyPair P s of
        Inl e \<Rightarrow> (Inl e, s)
      | Inr identityKeyPair \<Rightarrow>
          (case preKey_loop P count s of
             (Inl e, s1) \<Rightarrow> (Inl e, s1)
           | (Inr _, s1) \<Rightarrow>
               (case generateSignedPreKey P identityKeyPair s1 of
                  (Inl e, s2) \<Rightarrow> (Inl e, s2)
                | (Inr _, s2) \<Rightarrow> generateKyberPreKey P identityKeyPair s2)))"


subsection \<open>Sessions\<close>















section \<open>Notions used to state the properties of the store\<close>

text \<open>
  A value is untagged when none of its objects has the member \<open>__type\<close> with the string
  \<open>ab\<close>, the mark that \<open>encodeValue\<close> gives a binary leaf. \<open>as_Uint8Array\<close> is the value
  with each binary leaf as a \<open>Uint8Array\<close> over the same bytes. A JSON tree has no binary
  leaf.
\<close>

fun untagged :: "jsval \<Rightarrow> bool" where
  "untagged (JArr xs) = list_all untagged xs"
| "untagged (JObj kvs) =
     (map_of kvs ''__type'' \<noteq> Some (JStr ''ab'') \<and> list_all (\<lambda>kv. untagged (snd kv)) kvs)"
| "untagged v = True"

fun as_Uint8Array :: "jsval \<Rightarrow> jsval" where
  "as_Uint8Array (JArrayBuffer bs) = JUint8Array bs"
| "as_Uint8Array (JView bs) = JUint8Array bs"
| "as_Uint8Array (JArr xs) = JArr (map as_Uint8Array xs)"
| "as_Uint8Array (JObj kvs) = JObj (map (\<lambda>kv. (fst kv, as_Uint8Array (snd kv))) kvs)"
| "as_Uint8Array v = v"

fun is_json :: "jsval \<Rightarrow> bool" where
  "is_json (JArr xs) = list_all is_json xs"
| "is_json (JObj kvs) = list_all (\<lambda>kv. is_json (snd kv)) kvs"
| "is_json (JArrayBuffer bs) = False"
| "is_json (JUint8Array bs) = False"
| "is_json (JView bs) = False"
| "is_json v = True"

text \<open>
  The laws of Node that the round trip of the store rests on: a text sealed under a
  key and a nonce of 12 bytes has a tag of 16 bytes and opens to itself under them;
  \<open>randomBytes(n)\<close> has \<open>n\<close> bytes; the base64 text of \<open>bs\<close> decodes to \<open>bs\<close>; the JSON text
  of a JSON tree parses to the tree.
\<close>

definition node_ok :: "node_lib \<Rightarrow> bool" where
  "node_ok L \<longleftrightarrow>
     (\<forall>k iv plaintext. length iv = IV_LENGTH \<longrightarrow>
        length (snd (gcm_seal L k iv plaintext)) = TAG_LENGTH \<and>
        gcm_open L k iv (snd (gcm_seal L k iv plaintext)) (fst (gcm_seal L k iv plaintext)) =
          Some plaintext) \<and>
     (\<forall>n m. length (randomBytes L n m) = m) \<and>
     (\<forall>bs. Buffer_from_base64 L (Some (JStr (base64_of L bs))) = Some bs) \<and>
     (\<forall>j. is_json j \<longrightarrow> JSON_tree L (JSON_text L j) = Some j)"

text \<open>The laws of the protocol library: a serialized record deserializes to itself.\<close>

definition lib_ok :: "libsignal \<Rightarrow> bool" where
  "lib_ok S \<longleftrightarrow>
     (\<forall>r. IdentityKeyPair_deserialize S (IdentityKeyPair_serialize S r) = Some r) \<and>
     (\<forall>r. PreKeyRecord_deserialize S (PreKeyRecord_serialize S r) = Some r) \<and>
     (\<forall>r. SignedPreKeyRecord_deserialize S (SignedPreKeyRecord_serialize S r) = Some r) \<and>
     (\<forall>r. KyberPreKeyRecord_deserialize S (KyberPreKeyRecord_serialize S r) = Some r)"

definition platform_ok :: "platform \<Rightarrow> bool" where
  "platform_ok P \<longleftrightarrow> node_ok (node P) \<and> lib_ok (lib P)"

definition decimal_chars :: "char set" where
  "decimal_chars = set ''0123456789''"

section \<open>A small platform\<close>

text \<open>
  A platform on which the laws hold, to run the functions of the store on concrete
  values: the text of a tree is a prefix code of it, sealing leaves the text as it is
  and tags it with a checksum over key, nonce and text, and a record is the sequence
  of its fields.
\<close>

definition byte_of_char :: "char \<Rightarrow> byte" where
  "byte_of_char c = of_nat (of_char c)"

definition char_of_byte :: "byte \<Rightarrow> char" where
  "char_of_byte w = char_of (unat w)"

definition enc_nat :: "nat \<Rightarrow> bytes" where
  "enc_nat n = replicate n 1 @ [0]"

fun dec_nat :: "bytes \<Rightarrow> nat \<times> bytes" where
  "dec_nat [] = (0, [])"
| "dec_nat (b # bs) = (if b = 1 then (case dec_nat bs of (n, r) \<Rightarrow> (Suc n, r)) else (0, bs))"

definition enc_str :: "string \<Rightarrow> bytes" where
  "enc_str s = enc_nat (length s) @ map byte_of_char s"

fun toy_enc :: "jsval \<Rightarrow> bytes" where
  "toy_enc JNull = [0]"
| "toy_enc (JBool b) = [1, if b then 1 else 0]"
| "toy_enc (JNum i) = 2 # (if i < 0 then 1 else 0) # enc_nat (nat \<bar>i\<bar>)"
| "toy_enc (JStr s) = 3 # enc_str s"
| "toy_enc (JArr xs) = 4 # enc_nat (length xs) @ concat (map toy_enc xs)"
| "toy_enc (JObj kvs) =
     5 # enc_nat (length kvs) @ concat (map (\<lambda>kv. enc_str (fst kv) @ toy_enc (snd kv)) kvs)"
| "toy_enc v = [6]"

fun toy_dec :: "nat \<Rightarrow> bytes \<Rightarrow> (jsval \<times> bytes) option"
  and toy_dec_arr :: "nat \<Rightarrow> nat \<Rightarrow> bytes \<Rightarrow> (jsval list \<times> bytes) option"
  and toy_dec_obj :: "nat \<Rightarrow> nat \<Rightarrow> bytes \<Rightarrow> ((string \<times> jsval) list \<times> bytes) option" where
  "toy_dec 0 bs = None"
| "toy_dec (Suc f) [] = None"
| "toy_dec (Suc f) (t # bs) =
     (if t = 0 then Some (JNull, bs)
      else if t = 1 then (case bs of [] \<Rightarrow> None | b # r \<Rightarrow> Some (JBool (b = 1), r))
      else if t = 2 then
        (case bs of
           [] \<Rightarrow> None
         | sg # r \<Rightarrow> (case dec_nat r of (n, r') \<Rightarrow> Some (JNum (if sg = 1 then - int n else int n), r')))
      else if t = 3 then
        (case dec_nat bs of (n, r) \<Rightarrow> Some (JStr (map char_of_byte (take n r)), drop n r))
      else if t = 4 then
        (case dec_nat bs of (n, r) \<Rightarrow>
           (case toy_dec_arr f n r of None \<Rightarrow> None | Some (xs, r') \<Rightarrow> Some (JArr xs, r')))
      else if t = 5 then
        (case dec_nat bs of (n, r) \<Rightarrow>
           (case toy_dec_obj f n r of None \<Rightarrow> None | Some (kvs, r') \<Rightarrow> Some (JObj kvs, r')))
      else None)"
| "toy_dec_arr f 0 bs = Some ([], bs)"
| "toy_dec_arr f (Suc n) bs =
     (case toy_dec f bs of
        None \<Rightarrow> None
      | Some (x, r) \<Rightarrow>
          (case toy_dec_arr f n r of None \<Rightarrow> None | Some (xs, r') \<Rightarrow> Some (x # xs, r')))"
| "toy_dec_obj f 0 bs = Some ([], bs)"
| "toy_dec_obj f (Suc n) bs =
     (case dec_nat bs of (m, r) \<Rightarrow>
        (case toy_dec f (drop m r) of
           None \<Rightarrow> None
         | Some (v, r') \<Rightarrow>
             (case toy_dec_obj f n r' of
                None \<Rightarrow> None
              | Some (kvs, r'') \<Rightarrow> Some ((map char_of_byte (take m r), v) # kvs, r''))))"

fun depth :: "jsval \<Rightarrow> nat" where
  "depth (JArr xs) = Suc (foldr max (map depth xs) 0)"
| "depth (JObj kvs) = Suc (foldr max (map (\<lambda>kv. depth (snd kv)) kvs) 0)"
| "depth v = Suc 0"

definition toy_JSON_text :: "jsval \<Rightarrow> bytes" where
  "toy_JSON_text j = enc_nat (depth j) @ toy_enc j"

definition toy_JSON_tree :: "bytes \<Rightarrow> jsval option" where
  "toy_JSON_tree bs =
     (case dec_nat bs of (f, r) \<Rightarrow>
        (case toy_dec f r of Some (j, []) \<Rightarrow> Some j | _ \<Rightarrow> None))"

definition toy_tag :: "bytes \<Rightarrow> bytes \<Rightarrow> bytes \<Rightarrow> bytes" where
  "toy_tag k iv ciphertext = replicate 15 0 @ [sum_list (k @ iv @ ciphertext)]"

definition toy_node :: node_lib where
  "toy_node =
     \<lparr>gcm_seal = (\<lambda>k iv plaintext. (plaintext, toy_tag k iv plaintext)),
      gcm_open = (\<lambda>k iv tag ciphertext. if tag = toy_tag k iv ciphertext then Some ciphertext else None),
      base64_of = map char_of_byte,
      Buffer_from_base64 = (\<lambda>v. case v of Some (JStr text) \<Rightarrow> Some (map byte_of_char text) | _ \<Rightarrow> None),
      JSON_text = toy_JSON_text,
      JSON_tree = toy_JSON_tree,
      utf8_of = map byte_of_char,
      utf8_text = map char_of_byte,
      randomBytes = (\<lambda>n m. replicate m (of_nat n)),
      randomInt = (\<lambda>n lo hi. lo),
      Date_now = (\<lambda>n. 1700000000000 + int n)\<rparr>"

definition put_bytes :: "bytes \<Rightarrow> bytes" where
  "put_bytes bs = enc_nat (length bs) @ bs"

definition get_bytes :: "bytes \<Rightarrow> bytes \<times> bytes" where
  "get_bytes r = (case dec_nat r of (n, r') \<Rightarrow> (take n r', drop n r'))"

definition put_int :: "int \<Rightarrow> bytes" where
  "put_int i = (if i < 0 then 1 else 0) # enc_nat (nat \<bar>i\<bar>)"

fun get_int :: "bytes \<Rightarrow> int \<times> bytes" where
  "get_int [] = (0, [])"
| "get_int (sg # r) = (case dec_nat r of (n, r') \<Rightarrow> (if sg = 1 then - int n else int n, r'))"

fun private_bytes :: "private_key \<Rightarrow> bytes" where
  "private_bytes (PrivateKey bs) = bs"

fun public_bytes :: "public_key \<Rightarrow> bytes" where
  "public_bytes (PublicKey bs) = bs"

fun kem_public :: "kem_key_pair \<Rightarrow> bytes" where
  "kem_public (KEMKeyPair p q) = p"

fun kem_secret :: "kem_key_pair \<Rightarrow> bytes" where
  "kem_secret (KEMKeyPair p q) = q"

fun session_bytes :: "session_record \<Rightarrow> bytes" where
  "session_bytes (SessionRecord bs) = bs"

definition toy_IdentityKeyPair_deserialize :: "bytes \<Rightarrow> identity_key_pair option" where
  "toy_IdentityKeyPair_deserialize bs =
     (case get_bytes bs of (p, r1) \<Rightarrow>
      case get_bytes r1 of (q, r2) \<Rightarrow>
        Some \<lparr>ik_public = PublicKey p, ik_private = PrivateKey q\<rparr>)"

definition toy_PreKeyRecord_deserialize :: "bytes \<Rightarrow> pre_key_record option" where
  "toy_PreKeyRecord_deserialize bs =
     (case get_int bs of (i, r1) \<Rightarrow>
      case get_bytes r1 of (p, r2) \<Rightarrow>
      case get_bytes r2 of (q, r3) \<Rightarrow>
        Some \<lparr>pkr_id = i, pkr_public = PublicKey p, pkr_private = PrivateKey q\<rparr>)"

definition toy_SignedPreKeyRecord_deserialize :: "bytes \<Rightarrow> signed_pre_key_record option" where
  "toy_SignedPreKeyRecord_deserialize bs =
     (case get_int bs of (i, r1) \<Rightarrow>
      case get_int r1 of (t, r2) \<Rightarrow>
      case get_bytes r2 of (p, r3) \<Rightarrow>
      case get_bytes r3 of (q, r4) \<Rightarrow>
      case get_bytes r4 of (sg, r5) \<Rightarrow>
        Some \<lparr>spk_id = i, spk_timestamp = t, spk_public = PublicKey p, spk_private = PrivateKey q,
              spk_signature = sg\<rparr>)"

definition toy_KyberPreKeyRecord_deserialize :: "bytes \<Rightarrow> kyber_pre_key_record option" where
  "toy_KyberPreKeyRecord_deserialize bs =
     (case get_int bs of (i, r1) \<Rightarrow>
      case get_int r1 of (t, r2) \<Rightarrow>
      case get_bytes r2 of (p, r3) \<Rightarrow>
      case get_bytes r3 of (q, r4) \<Rightarrow>
      case get_bytes r4 of (sg, r5) \<Rightarrow>
        Some \<lparr>kpk_id = i, kpk_timestamp = t, kpk_key_pair = KEMKeyPair p q, kpk_signature = sg\<rparr>)"

definition toy_lib :: libsignal where
  "toy_lib =
     \<lparr>PrivateKey_generate = (\<lambda>n. PrivateKey [of_nat n, 42]),
      getPublicKey = (\<lambda>k. PublicKey (rev (private_bytes k))),
      sign = (\<lambda>k m. private_bytes k @ m),
      PublicKey_serialize = (\<lambda>k. 5 # public_bytes k),
      PublicKey_deserialize = (\<lambda>bs. case bs of [] \<Rightarrow> None | t # r \<Rightarrow> if t = 5 then Some (PublicKey r) else None),
      KEMKeyPair_generate = (\<lambda>n. KEMKeyPair [of_nat n, 1] [of_nat n, 2]),
      KEMPublicKey_serialize = (\<lambda>kp. 8 # kem_public kp),
      KEMPublicKey_deserialize = (\<lambda>bs. case bs of [] \<Rightarrow> None | t # r \<Rightarrow> if t = 8 then Some r else None),
      IdentityKeyPair_generate = (\<lambda>n. \<lparr>ik_public = PublicKey [of_nat n, 9], ik_private = PrivateKey [9, of_nat n]\<rparr>),
      IdentityKeyPair_serialize = (\<lambda>r. put_bytes (public_bytes (ik_public r)) @ put_bytes (private_bytes (ik_private r))),
      IdentityKeyPair_deserialize = toy_IdentityKeyPair_deserialize,
      PreKeyRecord_serialize =
        (\<lambda>r. put_int (pkr_id r) @ put_bytes (public_bytes (pkr_public r)) @
              put_bytes (private_bytes (pkr_private r))),
      PreKeyRecord_deserialize = toy_PreKeyRecord_deserialize,
      SignedPreKeyRecord_serialize =
        (\<lambda>r. put_int (spk_id r) @ put_int (spk_timestamp r) @ put_bytes (public_bytes (spk_public r)) @
              put_bytes (private_bytes (spk_private r)) @ put_bytes (spk_signature r)),
      SignedPreKeyRecord_deserialize = toy_SignedPreKeyRecord_deserialize,
      KyberPreKeyRecord_serialize =
        (\<lambda>r. put_int (kpk_id r) @ put_int (kpk_timestamp r) @ put_bytes (kem_public (kpk_key_pair r)) @
              put_bytes (kem_secret (kpk_key_pair r)) @ put_bytes (kpk_signature r)),
      KyberPreKeyRecord_deserialize = toy_KyberPreKeyRecord_deserialize,
      SessionRecord_serialize = session_bytes,
      SessionRecord_deserialize = (\<lambda>bs. Some (SessionRecord bs)),
      session_of_bundle = (\<lambda>b ours existing. Some (SessionRecord [1])),
      session_encrypt = (\<lambda>r m. ((2, m), r, PublicKey [7])),
      session_decrypt = (\<lambda>r m. Some (m, r, PublicKey [7])),
      prekey_message_ids = (\<lambda>m. Some (None, 1, None)),
      session_decrypt_prekey = (\<lambda>existing m ours opk spk kpk. Some (m, SessionRecord [2], PublicKey [7])),
      CiphertextMessageType_PreKey = 3,
      CiphertextMessageType_Whisper = 2\<rparr>"

definition toy :: platform where
  "toy = \<lparr>node = toy_node, lib = toy_lib\<rparr>"

definition empty_store :: encrypted_store where
  "empty_store = \<lparr>meta_localId = None, meta_deviceId = None, meta_registrationId = None,
                  db_kv = Map.empty, store_key = replicate 32 7, draws = 0\<rparr>"

subsection \<open>Values and stores to run the functions on\<close>



definition demo_written :: encrypted_store where
  "demo_written = store_set toy_node empty_store ''note'' (JNum 5)"

definition demo_payload :: bytes where
  "demo_payload = encryptJson toy_node (replicate 32 7) (JNum 5) 0"

definition demo_other_key :: encrypted_store where
  "demo_other_key = demo_written\<lparr>store_key := replicate 32 8\<rparr>"

definition demo_tampered :: encrypted_store where
  "demo_tampered = demo_written\<lparr>db_kv := (db_kv demo_written)(''note'' \<mapsto> demo_payload[30 := 9])\<rparr>"

definition demo_prekey :: pre_key_record where
  "demo_prekey = \<lparr>pkr_id = 5, pkr_public = PublicKey [2, 1], pkr_private = PrivateKey [1, 2]\<rparr>"

subsection \<open>Notions used to state the properties of the pre-keys\<close>

text \<open>
  A store after \<open>initializeIdentity\<close> on the small platform; the keys of the table that a
  run of \<open>generatePreKeys(count)\<close> writes when the three counters stand at \<open>pc\<close>, \<open>sc\<close>
  and \<open>kc\<close>; and the error of \<open>exportBundle\<close> for a store without local id or
  registration id.
\<close>

definition demo_alice :: encrypted_store where
  "demo_alice = initializeIdentity toy empty_store ''alice'' 1"

definition written_by_generatePreKeys :: "int \<Rightarrow> nat \<Rightarrow> int \<Rightarrow> int \<Rightarrow> string set" where
  "written_by_generatePreKeys pc count sc kc =
     {COUNTER_PREKEY, COUNTER_SIGNED_PREKEY, COUNTER_KYBER_PREKEY, signedprekey_key sc, kyberprekey_key kc}
     \<union> (\<lambda>i. prekey_key (pc + int i)) ` {..<count}"


subsection \<open>Notions used to state the properties of the sessions\<close>

text \<open>
  Two stores are the same except at the key \<open>k\<close> of the table when they have the same
  entries under every other key, the same key, the same number of draws and the same
  rows of \<open>meta\<close>; two results agree when they return or raise the same and leave
  stores that are the same except at \<open>k\<close>. \<open>demo_peer d\<close> is a bundle of the peer \<open>bob\<close>
  with the device id \<open>d\<close>, for the small platform.
\<close>

definition same_except :: "string \<Rightarrow> encrypted_store \<Rightarrow> encrypted_store \<Rightarrow> bool" where
  "same_except k s t \<longleftrightarrow>
     (\<forall>k'. k' \<noteq> k \<longrightarrow> db_kv s k' = db_kv t k') \<and> store_key s = store_key t \<and> draws s = draws t \<and>
     meta_localId s = meta_localId t \<and> meta_deviceId s = meta_deviceId t \<and>
     meta_registrationId s = meta_registrationId t"

definition agree :: "string \<Rightarrow> 'a \<times> encrypted_store \<Rightarrow> 'a \<times> encrypted_store \<Rightarrow> bool" where
  "agree k x y \<longleftrightarrow> fst x = fst y \<and> same_except k (snd x) (snd y)"


section \<open>Properties of the relay\<close>

section \<open>Properties of the relay\<close>

subsection \<open>What each operation changes\<close>

lemma sendWsMessage_fields:
  "users (sendWsMessage s ws p ok) = users s"
  "prekeys (sendWsMessage s ws p ok) = prekeys s"
  "messages (sendWsMessage s ws p ok) = messages s"
  "connections (sendWsMessage s ws p ok) = connections s"
  "awaiting (sendWsMessage s ws p ok) = awaiting s"
  "pushes (sendWsMessage s ws p ok) = pushes s"
  "length (sockets (sendWsMessage s ws p ok)) = length (sockets s)"
  by (simp_all add: sendWsMessage_def)

lemma sendWsMessage_socket:
  "clientId (sockets (sendWsMessage s ws p ok) ! h) = clientId (sockets s ! h)"
  "readyState (sockets (sendWsMessage s ws p ok) ! h) = readyState (sockets s ! h)"
  "close_frame (sockets (sendWsMessage s ws p ok) ! h) = close_frame (sockets s ! h)"
  "h < length (sockets s) \<Longrightarrow>
     sent (sockets (sendWsMessage s ws p ok) ! h) =
       sent (sockets s ! h) @ (if ok \<and> h = ws then [p] else [])"
  by (cases "h = ws"; simp add: sendWsMessage_def)+

lemma push_fields:
  "users (push s ws r ok) = users s"
  "prekeys (push s ws r ok) = prekeys s"
  "messages (push s ws r ok) = messages s"
  "connections (push s ws r ok) = connections s"
  "awaiting (push s ws r ok) = awaiting s"
  "pushes (push s ws r ok) = pushes s @ (if ok \<and> ws < length (sockets s) then [(ws, r)] else [])"
  "length (sockets (push s ws r ok)) = length (sockets s)"
  by (simp_all add: push_def sendWsMessage_fields)

lemma push_socket:
  "clientId (sockets (push s ws r ok) ! h) = clientId (sockets s ! h)"
  "readyState (sockets (push s ws r ok) ! h) = readyState (sockets s ! h)"
  "close_frame (sockets (push s ws r ok) ! h) = close_frame (sockets s ! h)"
  "h < length (sockets s) \<Longrightarrow>
     sent (sockets (push s ws r ok) ! h) =
       sent (sockets s ! h) @ (if ok \<and> h = ws then [buildMessagePayload r] else [])"
  by (simp_all add: push_def sendWsMessage_socket)

lemma mark_fields:
  "users (stmtMsgMarkDelivered s i) = users s"
  "prekeys (stmtMsgMarkDelivered s i) = prekeys s"
  "connections (stmtMsgMarkDelivered s i) = connections s"
  "awaiting (stmtMsgMarkDelivered s i) = awaiting s"
  "pushes (stmtMsgMarkDelivered s i) = pushes s"
  "sockets (stmtMsgMarkDelivered s i) = sockets s"
  "map row (messages (stmtMsgMarkDelivered s i)) = map row (messages s)"
  "length (messages (stmtMsgMarkDelivered s i)) = length (messages s)"
  by (simp_all add: stmtMsgMarkDelivered_def comp_def if_distrib[of row])

lemma mark_nth:
  "n < length (messages s) \<Longrightarrow>
   messages (stmtMsgMarkDelivered s i) ! n =
     (if row_id (row (messages s ! n)) = i then (messages s ! n)\<lparr>delivered := True\<rparr> else messages s ! n)"
  by (simp add: stmtMsgMarkDelivered_def)

lemma insert_fields:
  "users (stmtMsgInsert s r) = users s"
  "prekeys (stmtMsgInsert s r) = prekeys s"
  "connections (stmtMsgInsert s r) = connections s"
  "awaiting (stmtMsgInsert s r) = awaiting s"
  "pushes (stmtMsgInsert s r) = pushes s"
  "sockets (stmtMsgInsert s r) = sockets s"
  "messages (stmtMsgInsert s r) = messages s @ [\<lparr>row = r, delivered = False\<rparr>]"
  by (simp_all add: stmtMsgInsert_def)

lemma handleUpgrade_fields:
  "users (handleUpgrade s c) = users s"
  "prekeys (handleUpgrade s c) = prekeys s"
  "messages (handleUpgrade s c) = messages s"
  "connections (handleUpgrade s c) = connections s"
  "awaiting (handleUpgrade s c) = awaiting s"
  "pushes (handleUpgrade s c) = pushes s"
  "length (sockets (handleUpgrade s c)) = Suc (length (sockets s))"
  "h < length (sockets s) \<Longrightarrow> sockets (handleUpgrade s c) ! h = sockets s ! h"
  "sockets (handleUpgrade s c) ! length (sockets s) =
     \<lparr>clientId = c, readyState = OPEN, sent = [], close_frame = None\<rparr>"
  by (simp_all add: handleUpgrade_def nth_append)

lemma supersede_fields:
  "users (supersede s c ws) = users s"
  "prekeys (supersede s c ws) = prekeys s"
  "messages (supersede s c ws) = messages s"
  "connections (supersede s c ws) = connections s"
  "awaiting (supersede s c ws) = awaiting s"
  "pushes (supersede s c ws) = pushes s"
  "length (sockets (supersede s c ws)) = length (sockets s)"
  by (auto simp: supersede_def ws_close_def split: option.splits)

lemma supersede_socket:
  "h < length (sockets s) \<Longrightarrow>
     clientId (sockets (supersede s c ws) ! h) = clientId (sockets s ! h) \<and>
     sent (sockets (supersede s c ws) ! h) = sent (sockets s ! h) \<and>
     readyState (sockets (supersede s c ws) ! h) =
       (if connections s c = Some h \<and> h \<noteq> ws \<and> readyState (sockets s ! h) = OPEN
        then CLOSING else readyState (sockets s ! h)) \<and>
     close_frame (sockets (supersede s c ws) ! h) =
       (if connections s c = Some h \<and> h \<noteq> ws \<and> readyState (sockets s ! h) = OPEN
        then Some (4000, ''superseded'') else close_frame (sockets s ! h))"
  by (auto simp: supersede_def ws_close_def nth_list_update split: option.splits)

lemma connections_set_fields:
  "users (connections_set s c ws) = users s"
  "prekeys (connections_set s c ws) = prekeys s"
  "messages (connections_set s c ws) = messages s"
  "connections (connections_set s c ws) = (connections s)(c \<mapsto> ws)"
  "awaiting (connections_set s c ws) = awaiting s"
  "pushes (connections_set s c ws) = pushes s"
  "sockets (connections_set s c ws) = sockets s"
  by (simp_all add: connections_set_def)

lemma set_readyState_fields:
  "users (set_readyState s ws st) = users s"
  "prekeys (set_readyState s ws st) = prekeys s"
  "messages (set_readyState s ws st) = messages s"
  "connections (set_readyState s ws st) = connections s"
  "awaiting (set_readyState s ws st) = awaiting s"
  "pushes (set_readyState s ws st) = pushes s"
  "length (sockets (set_readyState s ws st)) = length (sockets s)"
  by (simp_all add: set_readyState_def)

lemma set_readyState_socket:
  "clientId (sockets (set_readyState s ws st) ! h) = clientId (sockets s ! h)"
  "sent (sockets (set_readyState s ws st) ! h) = sent (sockets s ! h)"
  "h < length (sockets s) \<Longrightarrow>
     readyState (sockets (set_readyState s ws st) ! h) =
       (if h = ws then st else readyState (sockets s ! h))"
  by (cases "h = ws"; simp add: set_readyState_def)+

lemma connections_drop_fields:
  "users (connections_drop s ws) = users s"
  "prekeys (connections_drop s ws) = prekeys s"
  "messages (connections_drop s ws) = messages s"
  "awaiting (connections_drop s ws) = awaiting s"
  "pushes (connections_drop s ws) = pushes s"
  "sockets (connections_drop s ws) = sockets s"
  by (simp_all add: connections_drop_def)

lemmas relay_fields =
  push_fields mark_fields insert_fields handleUpgrade_fields supersede_fields
  connections_set_fields set_readyState_fields connections_drop_fields

subsection \<open>The cases of a step\<close>

text \<open>The state in which a connection of \<open>c\<close> starts its replay.\<close>

lemma post_messages_rejected:
  "\<not> (MessageSchema f t e \<and> stmtUserExists s t \<and> u \<notin> set (map (row_id \<circ> row) (messages s))) \<Longrightarrow>
   snd (post_messages s f t e u now ok) = s"
  by (auto simp: post_messages_def)

lemma post_messages_offline:
  fixes e :: envelope and now :: int
  assumes "MessageSchema f t e" "stmtUserExists s t" "u \<notin> set (map (row_id \<circ> row) (messages s))"
    and "\<not> (\<exists>ws. connections s t = Some ws \<and> ws < length (sockets s) \<and> readyState (sockets s ! ws) = OPEN)"
  defines "r \<equiv> \<lparr>row_id = u, to_id = t, from_id = f, envelope_json = e, created_at = now\<rparr>"
  shows "post_messages s f t e u now ok =
           (Some (Inr \<lparr>queued = True, delivered_now = False\<rparr>), stmtMsgInsert s r)"
  using assms(1-4)
  by (auto simp: post_messages_def r_def deliverIfConnected_def insert_fields Let_def
           split: option.splits)

lemma post_messages_online:
  fixes e :: envelope and now :: int
  assumes "MessageSchema f t e" "stmtUserExists s t" "u \<notin> set (map (row_id \<circ> row) (messages s))"
    and "connections s t = Some ws" "ws < length (sockets s)" "readyState (sockets s ! ws) = OPEN"
  defines "r \<equiv> \<lparr>row_id = u, to_id = t, from_id = f, envelope_json = e, created_at = now\<rparr>"
  shows "post_messages s f t e u now ok =
           (None, (push (stmtMsgInsert s r) ws r ok)\<lparr>awaiting := awaiting s @ [Delivering r ok]\<rparr>)"
  using assms(1-6)
  by (simp add: post_messages_def r_def deliverIfConnected_def insert_fields push_fields Let_def)

lemma on_upgrade_rejected:
  "c = None \<or> c = Some [] \<or> (\<exists>i. c = Some i \<and> \<not> stmtUserExists s i) \<Longrightarrow>
   step s (Upgrade c ok) = s"
  by (auto simp: on_upgrade_def)

lemma on_upgrade_accepted:
  assumes "c \<noteq> []" "stmtUserExists s c"
  defines "w \<equiv> length (sockets s)"
  defines "s' \<equiv> connections_set (supersede (handleUpgrade s c) c w) c w"
  shows "stmtMsgPending s' c = stmtMsgPending s c"
    and "stmtMsgPending s c = [] \<Longrightarrow> step s (Upgrade (Some c) ok) = s'\<lparr>awaiting := awaiting s @ [Finished]\<rparr>"
    and "stmtMsgPending s c = r # rows \<Longrightarrow>
         step s (Upgrade (Some c) ok) = (push s' w r ok)\<lparr>awaiting := awaiting s @ [Replaying w r rows ok]\<rparr>"
proof -
  show p: "stmtMsgPending s' c = stmtMsgPending s c"
    by (simp add: stmtMsgPending_def s'_def relay_fields)
  have a: "awaiting s' = awaiting s" by (simp add: s'_def relay_fields)
  have st: "step s (Upgrade (Some c) ok) = deliverPending s' c w ok"
    using assms(1,2) by (simp add: on_upgrade_def on_connection_def s'_def w_def)
  show "stmtMsgPending s c = [] \<Longrightarrow> step s (Upgrade (Some c) ok) = s'\<lparr>awaiting := awaiting s @ [Finished]\<rparr>"
    unfolding st by (simp add: deliverPending_def p a)
  show "stmtMsgPending s c = r # rows \<Longrightarrow>
         step s (Upgrade (Some c) ok) = (push s' w r ok)\<lparr>awaiting := awaiting s @ [Replaying w r rows ok]\<rparr>"
    unfolding st by (simp add: deliverPending_def p a push_fields)
qed

lemma callback_idle:
  "\<not> a < length (awaiting s) \<or> awaiting s ! a = Finished \<Longrightarrow> callback s a ok' = (None, s)"
  by (auto simp: callback_def)

lemma callback_replay:
  assumes "a < length (awaiting s)" "awaiting s ! a = Replaying h r rows ok"
  shows "\<not> ok \<Longrightarrow> callback s a ok' = (None, s\<lparr>awaiting := (awaiting s)[a := Finished]\<rparr>)"
    and "ok \<Longrightarrow> rows = [] \<Longrightarrow>
         callback s a ok' = (None, (stmtMsgMarkDelivered s (row_id r))\<lparr>awaiting := (awaiting s)[a := Finished]\<rparr>)"
    and "ok \<Longrightarrow> rows = r' # rows' \<Longrightarrow>
         callback s a ok' =
           (None, (push (stmtMsgMarkDelivered s (row_id r)) h r' ok')
                    \<lparr>awaiting := (awaiting s)[a := Replaying h r' rows' ok']\<rparr>)"
  using assms
  by (simp_all add: callback_def deliverPending_resume_def mark_fields push_fields)

lemma callback_deliver:
  assumes "a < length (awaiting s)" "awaiting s ! a = Delivering r ok"
  shows "callback s a ok' =
           (Some \<lparr>queued = True, delivered_now = ok\<rparr>,
            (if ok then stmtMsgMarkDelivered s (row_id r) else s)\<lparr>awaiting := (awaiting s)[a := Finished]\<rparr>)"
  using assms
  by (simp add: callback_def post_messages_resume_def deliverIfConnected_resume_def)

lemma step_cases [case_names Idle Register Publish Queued Pushed Connected Replay
    Replay_next Replay_done Replay_failed Deliver_done Deliver_failed Closed]:
  fixes s :: relay and ev :: relay_event
  obtains
    "step s ev = s"
  | i now where "ev = Register i now" "step s ev = s\<lparr>users := (users s)(i \<mapsto> now)\<rparr>"
  | i b now where "ev = Publish i b now" "fst (post_prekeys s i b now) = Inr ()"
      "step s ev = s\<lparr>prekeys := (prekeys s)(i \<mapsto> (b, now))\<rparr>"
  | f t e u now ok where "ev = Submit f t e u now ok"
      "MessageSchema f t e" "stmtUserExists s t" "u \<notin> set (map (row_id \<circ> row) (messages s))"
      "\<not> (\<exists>ws. connections s t = Some ws \<and> ws < length (sockets s) \<and> readyState (sockets s ! ws) = OPEN)"
      "step s ev = stmtMsgInsert s \<lparr>row_id = u, to_id = t, from_id = f, envelope_json = e, created_at = now\<rparr>"
  | f t e u now ok ws where "ev = Submit f t e u now ok"
      "MessageSchema f t e" "stmtUserExists s t" "u \<notin> set (map (row_id \<circ> row) (messages s))"
      "connections s t = Some ws" "ws < length (sockets s)" "readyState (sockets s ! ws) = OPEN"
      "step s ev =
         (push (stmtMsgInsert s \<lparr>row_id = u, to_id = t, from_id = f, envelope_json = e, created_at = now\<rparr>)
            ws \<lparr>row_id = u, to_id = t, from_id = f, envelope_json = e, created_at = now\<rparr> ok)
         \<lparr>awaiting := awaiting s @
            [Delivering \<lparr>row_id = u, to_id = t, from_id = f, envelope_json = e, created_at = now\<rparr> ok]\<rparr>"
  | c ok where "ev = Upgrade (Some c) ok" "c \<noteq> []" "stmtUserExists s c" "stmtMsgPending s c = []"
      "step s ev =
         (connections_set (supersede (handleUpgrade s c) c (length (sockets s))) c (length (sockets s)))
         \<lparr>awaiting := awaiting s @ [Finished]\<rparr>"
  | c ok r rows where "ev = Upgrade (Some c) ok" "c \<noteq> []" "stmtUserExists s c"
      "stmtMsgPending s c = r # rows"
      "step s ev =
         (push (connections_set (supersede (handleUpgrade s c) c (length (sockets s))) c (length (sockets s)))
            (length (sockets s)) r ok)
         \<lparr>awaiting := awaiting s @ [Replaying (length (sockets s)) r rows ok]\<rparr>"
  | a ok' h r r' rows where "ev = Callback a ok'" "a < length (awaiting s)"
      "awaiting s ! a = Replaying h r (r' # rows) True"
      "step s ev = (push (stmtMsgMarkDelivered s (row_id r)) h r' ok')
                     \<lparr>awaiting := (awaiting s)[a := Replaying h r' rows ok']\<rparr>"
  | a ok' h r where "ev = Callback a ok'" "a < length (awaiting s)"
      "awaiting s ! a = Replaying h r [] True"
      "step s ev = (stmtMsgMarkDelivered s (row_id r))\<lparr>awaiting := (awaiting s)[a := Finished]\<rparr>"
  | a ok' h r rows where "ev = Callback a ok'" "a < length (awaiting s)"
      "awaiting s ! a = Replaying h r rows False"
      "step s ev = s\<lparr>awaiting := (awaiting s)[a := Finished]\<rparr>"
  | a ok' r where "ev = Callback a ok'" "a < length (awaiting s)"
      "awaiting s ! a = Delivering r True"
      "step s ev = (stmtMsgMarkDelivered s (row_id r))\<lparr>awaiting := (awaiting s)[a := Finished]\<rparr>"
  | a ok' r where "ev = Callback a ok'" "a < length (awaiting s)"
      "awaiting s ! a = Delivering r False"
      "step s ev = s\<lparr>awaiting := (awaiting s)[a := Finished]\<rparr>"
  | ws st where "ev = WsClose ws \<or> ev = WsError ws" "st \<noteq> OPEN"
      "step s ev = connections_drop (set_readyState s ws st) ws"
proof (cases ev)
  case (Register i now)
  show ?thesis
  proof (cases "RegisterSchema i \<and> users s i = None")
    case True
    then have "step s ev = s\<lparr>users := (users s)(i \<mapsto> now)\<rparr>"
      by (simp add: Register post_register_def stmtUserInsert_def)
    then show ?thesis by (rule that(2)[OF Register])
  next
    case False
    then have "step s ev = s"
      by (auto simp: Register post_register_def stmtUserInsert_def split: option.splits)
    then show ?thesis by (rule that(1))
  qed
next
  case (Publish i b now)
  show ?thesis
  proof (cases "fst (post_prekeys s i b now) = Inr ()")
    case True
    then have "step s ev = s\<lparr>prekeys := (prekeys s)(i \<mapsto> (b, now))\<rparr>"
      by (auto simp: Publish post_prekeys_def stmtPrekeyUpsert_def split: if_splits)
    then show ?thesis by (rule that(3)[OF Publish True])
  next
    case False
    then have "step s ev = s"
      by (auto simp: Publish post_prekeys_def split: if_splits)
    then show ?thesis by (rule that(1))
  qed
next
  case (Submit f t e u now ok)
  show ?thesis
  proof (cases "MessageSchema f t e \<and> stmtUserExists s t \<and> u \<notin> set (map (row_id \<circ> row) (messages s))")
    case False
    then have "step s ev = s" unfolding Submit step.simps by (rule post_messages_rejected)
    then show ?thesis by (rule that(1))
  next
    case True
    then have acc: "MessageSchema f t e" "stmtUserExists s t" "u \<notin> set (map (row_id \<circ> row) (messages s))"
      by simp_all
    show ?thesis
    proof (cases "\<exists>ws. connections s t = Some ws \<and> ws < length (sockets s) \<and> readyState (sockets s ! ws) = OPEN")
      case False
      have "step s ev = stmtMsgInsert s \<lparr>row_id = u, to_id = t, from_id = f, envelope_json = e, created_at = now\<rparr>"
        unfolding Submit step.simps post_messages_offline[OF acc False] by simp
      then show ?thesis by (rule that(4)[OF Submit acc False])
    next
      case True
      then obtain ws where ws: "connections s t = Some ws" "ws < length (sockets s)"
        "readyState (sockets s ! ws) = OPEN" by blast
      have "step s ev =
         (push (stmtMsgInsert s \<lparr>row_id = u, to_id = t, from_id = f, envelope_json = e, created_at = now\<rparr>)
            ws \<lparr>row_id = u, to_id = t, from_id = f, envelope_json = e, created_at = now\<rparr> ok)
         \<lparr>awaiting := awaiting s @
            [Delivering \<lparr>row_id = u, to_id = t, from_id = f, envelope_json = e, created_at = now\<rparr> ok]\<rparr>"
        unfolding Submit step.simps post_messages_online[OF acc ws] by simp
      then show ?thesis by (rule that(5)[OF Submit acc ws])
    qed
  qed
next
  case (Upgrade co ok)
  show ?thesis
  proof (cases "co = None \<or> co = Some [] \<or> (\<exists>i. co = Some i \<and> \<not> stmtUserExists s i)")
    case True
    then have "step s ev = s" unfolding Upgrade by (rule on_upgrade_rejected)
    then show ?thesis by (rule that(1))
  next
    case False
    then obtain c where c: "co = Some c" "c \<noteq> []" "stmtUserExists s c" by (cases co) auto
    have ev: "ev = Upgrade (Some c) ok" unfolding Upgrade c(1) ..
    note u = on_upgrade_accepted[OF c(2,3)]
    show ?thesis
    proof (cases "stmtMsgPending s c")
      case Nil
      show ?thesis by (rule that(6)[OF ev c(2,3) Nil]) (unfold ev, rule u(2)[OF Nil])
    next
      case (Cons r rows)
      show ?thesis by (rule that(7)[OF ev c(2,3) Cons]) (unfold ev, rule u(3)[OF Cons])
    qed
  qed
next
  case (Callback a ok')
  show ?thesis
  proof (cases "a < length (awaiting s)")
    case False
    then have "step s ev = s" by (simp add: Callback callback_idle)
    then show ?thesis by (rule that(1))
  next
    case a: True
    show ?thesis
    proof (cases "awaiting s ! a")
      case Finished
      then have "step s ev = s" by (simp add: Callback callback_idle)
      then show ?thesis by (rule that(1))
    next
      case (Delivering r ok)
      show ?thesis
      proof (cases ok)
        case True
        have "step s ev = (stmtMsgMarkDelivered s (row_id r))\<lparr>awaiting := (awaiting s)[a := Finished]\<rparr>"
          unfolding Callback step.simps callback_deliver[OF a Delivering] using True by simp
        then show ?thesis using Delivering True by (intro that(11)[OF Callback a]) simp_all
      next
        case False
        have "step s ev = s\<lparr>awaiting := (awaiting s)[a := Finished]\<rparr>"
          unfolding Callback step.simps callback_deliver[OF a Delivering] using False by simp
        then show ?thesis using Delivering False by (intro that(12)[OF Callback a]) simp_all
      qed
    next
      case (Replaying h r rows ok)
      note cb = callback_replay[OF a Replaying]
      show ?thesis
      proof (cases ok)
        case False
        have "step s ev = s\<lparr>awaiting := (awaiting s)[a := Finished]\<rparr>"
          unfolding Callback step.simps cb(1)[OF False] by simp
        then show ?thesis using Replaying False by (intro that(10)[OF Callback a]) simp_all
      next
        case True
        show ?thesis
        proof (cases rows)
          case Nil
          have "step s ev = (stmtMsgMarkDelivered s (row_id r))\<lparr>awaiting := (awaiting s)[a := Finished]\<rparr>"
            unfolding Callback step.simps cb(2)[OF True Nil] by simp
          then show ?thesis using Replaying True Nil by (intro that(9)[OF Callback a]) simp_all
        next
          case (Cons r' rows')
          have "step s ev = (push (stmtMsgMarkDelivered s (row_id r)) h r' ok')
                     \<lparr>awaiting := (awaiting s)[a := Replaying h r' rows' ok']\<rparr>"
            unfolding Callback step.simps cb(3)[OF True Cons] by simp
          then show ?thesis using Replaying True Cons by (intro that(8)[OF Callback a]) simp_all
        qed
      qed
    qed
  qed
next
  case (WsClose ws)
  have "step s ev = connections_drop (set_readyState s ws CLOSED) ws"
    by (simp add: WsClose on_close_def)
  then show ?thesis using WsClose by (intro that(13)[of ws CLOSED]) simp_all
next
  case (WsError ws)
  have "step s ev = connections_drop (set_readyState s ws CLOSING) ws"
    by (simp add: WsError on_error_def)
  then show ?thesis using WsError by (intro that(13)[of ws CLOSING]) simp_all
qed

subsection \<open>The table of connections\<close>

lemma wiring_cong:
  assumes "authoritative_open s \<and> conn_wf s"
    and "connections s' = connections s" "length (sockets s') = length (sockets s)"
    and "\<And>h. h < length (sockets s) \<Longrightarrow> clientId (sockets s' ! h) = clientId (sockets s ! h)"
    and "\<And>h. h < length (sockets s) \<Longrightarrow> readyState (sockets s' ! h) = readyState (sockets s ! h)"
  shows "authoritative_open s' \<and> conn_wf s'"
  using assms by (simp add: authoritative_open_def conn_wf_def)

lemma wiring_connected:
  fixes c :: string
  assumes ao: "authoritative_open s" and wf: "conn_wf s"
  defines "w \<equiv> length (sockets s)"
  defines "s' \<equiv> connections_set (supersede (handleUpgrade s c) c w) c w"
  shows "authoritative_open s'" and "conn_wf s'"
proof -
  let ?s1 = "handleUpgrade s c"
  have len: "length (sockets s') = Suc (length (sockets s))"
    by (simp add: s'_def relay_fields)
  have conn: "connections s' = (connections s)(c \<mapsto> w)"
    by (simp add: s'_def relay_fields)
  have new: "clientId (sockets s' ! w) = c" "readyState (sockets s' ! w) = OPEN"
    using supersede_socket[of w ?s1 c w]
    by (simp_all add: s'_def relay_fields w_def)
  have old: "clientId (sockets s' ! h) = clientId (sockets s ! h)"
    "readyState (sockets s' ! h) =
       (if connections s c = Some h \<and> readyState (sockets s ! h) = OPEN
        then CLOSING else readyState (sockets s ! h))"
    if "h < length (sockets s)" for h
    using supersede_socket[of h ?s1 c w] that
    by (simp_all add: s'_def relay_fields w_def)
  show "authoritative_open s'"
    unfolding authoritative_open_def
  proof (intro allI impI)
    fix h assume h: "h < length (sockets s')" and o: "readyState (sockets s' ! h) = OPEN"
    show "connections s' (clientId (sockets s' ! h)) = Some h"
    proof (cases "h = w")
      case True
      then show ?thesis by (simp add: new conn)
    next
      case False
      then have hs: "h < length (sockets s)" using h len by (simp add: w_def)
      from o old(2)[OF hs] have o': "readyState (sockets s ! h) = OPEN" and nc: "connections s c \<noteq> Some h"
        by (auto split: if_splits)
      from ao hs o' have own: "connections s (clientId (sockets s ! h)) = Some h"
        by (simp add: authoritative_open_def)
      with nc have "clientId (sockets s ! h) \<noteq> c" by auto
      then show ?thesis by (simp add: old(1)[OF hs] conn own)
    qed
  qed
  show "conn_wf s'"
    unfolding conn_wf_def
  proof (intro allI impI)
    fix c' h assume a: "connections s' c' = Some h"
    show "h < length (sockets s') \<and> clientId (sockets s' ! h) = c'"
    proof (cases "c' = c")
      case True
      with a conn have "h = w" by simp
      then show ?thesis using new len True by (simp add: w_def)
    next
      case False
      with a conn have "connections s c' = Some h" by simp
      with wf have "h < length (sockets s)" "clientId (sockets s ! h) = c'"
        by (simp_all add: conn_wf_def)
      then show ?thesis using old(1) len by simp
    qed
  qed
qed

lemma wiring_closed:
  fixes ws :: nat and st :: ready_state
  assumes ao: "authoritative_open s" and wf: "conn_wf s" and st: "st \<noteq> OPEN"
  defines "s' \<equiv> connections_drop (set_readyState s ws st) ws"
  shows "authoritative_open s'" and "conn_wf s'"
proof -
  let ?s1 = "set_readyState s ws st"
  have sk: "sockets s' = sockets ?s1" by (simp add: s'_def relay_fields)
  have len: "length (sockets s') = length (sockets s)" by (simp add: sk relay_fields)
  have cl: "clientId (sockets s' ! h) = clientId (sockets s ! h)" for h
    by (simp add: sk set_readyState_socket)
  have rs: "readyState (sockets s' ! h) = (if h = ws then st else readyState (sockets s ! h))"
    if "h < length (sockets s)" for h
    using that by (simp add: sk set_readyState_socket)
  have conn: "connections s' =
      (if ws < length (sockets s) \<and> connections s (clientId (sockets s ! ws)) = Some ws
       then (connections s)(clientId (sockets s ! ws) := None) else connections s)"
    by (simp add: s'_def connections_drop_def relay_fields set_readyState_socket)
  show "authoritative_open s'"
    unfolding authoritative_open_def
  proof (intro allI impI)
    fix h assume h: "h < length (sockets s')" and o: "readyState (sockets s' ! h) = OPEN"
    from h len have hs: "h < length (sockets s)" by simp
    from o rs[OF hs] st have ne: "h \<noteq> ws" and o': "readyState (sockets s ! h) = OPEN"
      by (auto split: if_splits)
    from ao hs o' have own: "connections s (clientId (sockets s ! h)) = Some h"
      by (simp add: authoritative_open_def)
    show "connections s' (clientId (sockets s' ! h)) = Some h"
      unfolding cl conn using own ne by auto
  qed
  show "conn_wf s'"
    unfolding conn_wf_def
  proof (intro allI impI)
    fix c h assume a: "connections s' c = Some h"
    then have "connections s c = Some h" unfolding conn by (auto split: if_splits)
    with wf have "h < length (sockets s)" "clientId (sockets s ! h) = c"
      by (simp_all add: conn_wf_def)
    then show "h < length (sockets s') \<and> clientId (sockets s' ! h) = c"
      by (simp add: len cl)
  qed
qed

lemma wiring_step:
  assumes "authoritative_open s" "conn_wf s"
  shows "authoritative_open (step s ev) \<and> conn_wf (step s ev)"
proof (cases rule: step_cases[where s=s and ev=ev])
  case Idle
  then show ?thesis using assms by simp
next
  case (Register i now)
  then show ?thesis using assms by (simp add: authoritative_open_def conn_wf_def)
next
  case (Publish i b now)
  then show ?thesis using assms by (simp add: authoritative_open_def conn_wf_def)
next
  case (Queued f t e u now ok)
  then show ?thesis using assms by (simp add: authoritative_open_def conn_wf_def relay_fields)
next
  case (Pushed f t e u now ok ws)
  from assms have inv: "authoritative_open s \<and> conn_wf s" by simp
  show ?thesis unfolding Pushed(8)
    by (rule wiring_cong[OF inv]) (simp_all add: relay_fields push_socket)
next
  case (Connected c ok)
  from wiring_connected[OF assms, of c]
  have inv: "authoritative_open (connections_set (supersede (handleUpgrade s c) c (length (sockets s))) c (length (sockets s)))
      \<and> conn_wf (connections_set (supersede (handleUpgrade s c) c (length (sockets s))) c (length (sockets s)))"
    by simp
  show ?thesis unfolding Connected(5)
    by (rule wiring_cong[OF inv]) simp_all
next
  case (Replay c ok r rows)
  from wiring_connected[OF assms, of c]
  have inv: "authoritative_open (connections_set (supersede (handleUpgrade s c) c (length (sockets s))) c (length (sockets s)))
      \<and> conn_wf (connections_set (supersede (handleUpgrade s c) c (length (sockets s))) c (length (sockets s)))"
    by simp
  show ?thesis unfolding Replay(5)
    by (rule wiring_cong[OF inv]) (simp_all add: push_fields push_socket)
next
  case (Replay_next a ok' h r r' rows)
  from assms have inv: "authoritative_open s \<and> conn_wf s" by simp
  show ?thesis unfolding Replay_next(4)
    by (rule wiring_cong[OF inv]) (simp_all add: relay_fields push_socket)
next
  case (Replay_done a ok' h r)
  from assms have inv: "authoritative_open s \<and> conn_wf s" by simp
  show ?thesis unfolding Replay_done(4)
    by (rule wiring_cong[OF inv]) (simp_all add: relay_fields)
next
  case (Replay_failed a ok' h r rows)
  then show ?thesis using assms by (simp add: authoritative_open_def conn_wf_def)
next
  case (Deliver_done a ok' r)
  from assms have inv: "authoritative_open s \<and> conn_wf s" by simp
  show ?thesis unfolding Deliver_done(4)
    by (rule wiring_cong[OF inv]) (simp_all add: relay_fields)
next
  case (Deliver_failed a ok' r)
  then show ?thesis using assms by (simp add: authoritative_open_def conn_wf_def)
next
  case (Closed ws st)
  show ?thesis unfolding Closed(3) using wiring_closed[OF assms Closed(2), of ws] by simp
qed

lemma wiring_foldl:
  "authoritative_open s \<Longrightarrow> conn_wf s \<Longrightarrow>
   authoritative_open (foldl step s evs) \<and> conn_wf (foldl step s evs)"
proof (induction evs arbitrary: s)
  case Nil
  then show ?case by simp
next
  case (Cons ev evs)
  from wiring_step[OF Cons.prems, of ev] Cons.IH[of "step s ev"] show ?case by simp
qed

lemma wiring_run: "authoritative_open (run evs)" "conn_wf (run evs)"
  using wiring_foldl[of openDb evs]
  by (simp_all add: run_def authoritative_open_def conn_wf_def openDb_def)

subsection \<open>The table of messages\<close>

lemma rows_mark [simp]: "row ` set (messages (stmtMsgMarkDelivered s i)) = row ` set (messages s)"
proof -
  have "row ` set (messages (stmtMsgMarkDelivered s i)) = set (map row (messages (stmtMsgMarkDelivered s i)))"
    by simp
  also have "\<dots> = set (map row (messages s))" by (simp only: mark_fields)
  finally show ?thesis by simp
qed

lemma ids_mark [simp]:
  "map (row_id \<circ> row) (messages (stmtMsgMarkDelivered s i)) = map (row_id \<circ> row) (messages s)"
proof -
  have "map (row_id \<circ> row) (messages (stmtMsgMarkDelivered s i)) =
        map row_id (map row (messages (stmtMsgMarkDelivered s i)))" by simp
  also have "\<dots> = map row_id (map row (messages s))" by (simp only: mark_fields)
  finally show ?thesis by simp
qed









lemma is_delivered_cong: "messages s' = messages s \<Longrightarrow> is_delivered s' j = is_delivered s j"
  by (simp add: is_delivered_def)

subsection \<open>The history of the sends and the functions that await\<close>

















lemma sent_pushes_awaiting [simp]: "sent_pushes (s\<lparr>awaiting := x\<rparr>) = sent_pushes s"
  by (simp add: sent_pushes_def pushed_on_def)






lemma run_append: "run (evs @ evs') = foldl step (run evs) evs'"
  by (simp add: run_def)

subsection \<open>The open sockets of an identity\<close>

lemma distinct_sub_singleton:
  "distinct xs \<Longrightarrow> set xs \<subseteq> {h} \<Longrightarrow> xs = (if h \<in> set xs then [h] else [])"
proof (cases xs)
  case Nil
  then show ?thesis by simp
next
  case (Cons a as)
  assume d: "distinct xs" and s: "set xs \<subseteq> {h}"
  from s Cons have "a = h" "set as \<subseteq> {h}" by auto
  moreover from d Cons have "a \<notin> set as" by simp
  ultimately have "as = []" by (cases as) auto
  with Cons \<open>a = h\<close> show ?thesis by simp
qed

lemma live_authoritative:
  assumes "authoritative_open s"
  shows "live s c = (case connections s c of
                       None \<Rightarrow> []
                     | Some h \<Rightarrow> if h < length (sockets s) \<and> clientId (sockets s ! h) = c \<and>
                                    readyState (sockets s ! h) = OPEN then [h] else [])"
proof -
  have sub: "\<And>h. h \<in> set (live s c) \<Longrightarrow> connections s c = Some h"
    using assms by (auto simp: live_def authoritative_open_def)
  have d: "distinct (live s c)" by (simp add: live_def)
  show ?thesis
  proof (cases "connections s c")
    case None
    with sub have "live s c = []" by (cases "live s c") auto
    with None show ?thesis by simp
  next
    case (Some h)
    have "set (live s c) \<subseteq> {h}" using sub Some by auto
    from distinct_sub_singleton[OF d this] Some show ?thesis
      by (simp add: live_def)
  qed
qed

lemma live_le_1: "authoritative_open s \<Longrightarrow> length (live s c) \<le> 1"
  by (simp add: live_authoritative split: option.splits)

lemma set_live: "set (live s c) = {h. is_open s h \<and> client_of s h = Some c}"
  by (auto simp: live_def is_open_def client_of_def)

lemma live_singletonI:
  assumes "\<And>h. is_open s h \<and> client_of s h = Some c \<longleftrightarrow> h = w"
  shows "live s c = [w]"
proof -
  have "set (live s c) = {w}" unfolding set_live using assms by auto
  moreover have "distinct (live s c)" by (simp add: live_def)
  ultimately show ?thesis using distinct_sub_singleton[of "live s c" w] by simp
qed

lemma live_connected:
  assumes "authoritative_open s" "conn_wf s"
  shows "live s c = (case connections s c of
                       None \<Rightarrow> []
                     | Some h \<Rightarrow> if readyState (sockets s ! h) = OPEN then [h] else [])"
  using assms(2) unfolding live_authoritative[OF assms(1)]
  by (auto simp: conn_wf_def split: option.splits)

lemma supersede_mid:
  fixes s :: relay and c :: string
  assumes ao: "authoritative_open s" and wf: "conn_wf s"
  defines "ws \<equiv> length (sockets s)"
  defines "mid \<equiv> supersede (handleUpgrade s c) c ws"
  shows "live mid c = [ws]"
    and "connections mid c = connections s c"
    and "connections s c = Some old \<Longrightarrow> readyState (sockets mid ! old) \<noteq> OPEN"
    and "connections s c = Some old \<Longrightarrow> readyState (sockets s ! old) = OPEN \<Longrightarrow>
           readyState (sockets mid ! old) = CLOSING \<and>
           close_frame (sockets mid ! old) = Some (4000, ''superseded'')"
    and "live (connections_set mid c ws) c = [ws]"
    and "connections (connections_set mid c ws) c = Some ws"
proof -
  let ?s1 = "handleUpgrade s c"
  have len: "length (sockets mid) = Suc ws"
    by (simp add: mid_def ws_def supersede_fields handleUpgrade_fields)
  have conn1: "connections ?s1 = connections s" by (simp add: handleUpgrade_fields)
  have sock: "clientId (sockets mid ! h) = clientId (sockets ?s1 ! h) \<and>
     readyState (sockets mid ! h) =
       (if connections s c = Some h \<and> h \<noteq> ws \<and> readyState (sockets ?s1 ! h) = OPEN
        then CLOSING else readyState (sockets ?s1 ! h)) \<and>
     close_frame (sockets mid ! h) =
       (if connections s c = Some h \<and> h \<noteq> ws \<and> readyState (sockets ?s1 ! h) = OPEN
        then Some (4000, ''superseded'') else close_frame (sockets ?s1 ! h))"
    if "h < Suc ws" for h
    using supersede_socket[of h ?s1 c ws] that
    unfolding mid_def conn1 by (simp add: handleUpgrade_fields ws_def)
  have old_lt: "old < ws" if "connections s c = Some old" for old
    using wf that by (simp add: conn_wf_def ws_def)
  have char: "is_open mid h \<and> client_of mid h = Some c \<longleftrightarrow> h = ws" for h
  proof (cases "h < ws")
    case True
    then have h1: "sockets ?s1 ! h = sockets s ! h" by (simp add: handleUpgrade_fields ws_def)
    have "\<not> (readyState (sockets mid ! h) = OPEN \<and> clientId (sockets mid ! h) = c)"
    proof
      assume a: "readyState (sockets mid ! h) = OPEN \<and> clientId (sockets mid ! h) = c"
      with sock[of h] True h1 have o: "readyState (sockets s ! h) = OPEN" "clientId (sockets s ! h) = c"
        by (auto split: if_splits)
      with ao True have "connections s c = Some h" by (auto simp: authoritative_open_def ws_def)
      with sock[of h] True h1 o a show False by simp
    qed
    with True show ?thesis by (auto simp: is_open_def client_of_def len)
  next
    case False
    show ?thesis
    proof (cases "h = ws")
      case True
      have "sockets ?s1 ! ws = \<lparr>clientId = c, readyState = OPEN, sent = [], close_frame = None\<rparr>"
        by (simp add: ws_def handleUpgrade_fields)
      with sock[of ws] True show ?thesis by (simp add: is_open_def client_of_def len)
    next
      case False
      with \<open>\<not> h < ws\<close> show ?thesis by (simp add: is_open_def client_of_def len)
    qed
  qed
  show "live mid c = [ws]" by (rule live_singletonI) (rule char)
  show "connections mid c = connections s c"
    by (simp add: mid_def supersede_fields handleUpgrade_fields)
  show "readyState (sockets mid ! old) \<noteq> OPEN" if c: "connections s c = Some old"
  proof -
    from old_lt[OF c] have "old < Suc ws" "old \<noteq> ws" by simp_all
    with sock[of old] c show ?thesis by (simp split: if_splits)
  qed
  show "readyState (sockets mid ! old) = CLOSING \<and>
           close_frame (sockets mid ! old) = Some (4000, ''superseded'')"
    if c: "connections s c = Some old" and o: "readyState (sockets s ! old) = OPEN"
  proof -
    from old_lt[OF c] have lt: "old < Suc ws" "old \<noteq> ws" "old < length (sockets s)"
      by (simp_all add: ws_def)
    then have "sockets ?s1 ! old = sockets s ! old" by (simp add: handleUpgrade_fields)
    with sock[of old] lt c o show ?thesis by simp
  qed
  have "is_open (connections_set mid c ws) = is_open mid"
       "client_of (connections_set mid c ws) = client_of mid"
    by (rule ext, simp add: is_open_def connections_set_fields)
       (rule ext, simp add: client_of_def connections_set_fields)
  then show "live (connections_set mid c ws) c = [ws]"
    using char by (intro live_singletonI) simp
  show "connections (connections_set mid c ws) c = Some ws"
    by (simp add: connections_set_fields)
qed

lemmas relay_eval =
  run_def openDb_def post_register_def RegisterSchema_def stmtUserInsert_def
  post_prekeys_def PreKeyUploadSchema_def BundleSchema_def SignedSchema_def stmtPrekeyUpsert_def
  stmtPrekeyGet_def
  post_messages_def MessageSchema_def EnvelopeSchema_def stmtUserExists_def stmtMsgInsert_def
  deliverIfConnected_def on_upgrade_def handleUpgrade_def on_connection_def supersede_def
  connections_set_def deliverPending_def stmtMsgPending_def pending_def sendWsMessage_def push_def
  stmtMsgMarkDelivered_def buildMessagePayload_def ws_close_def
  callback_def deliverPending_resume_def post_messages_resume_def deliverIfConnected_resume_def
  on_close_def on_error_def connections_drop_def set_readyState_def
  demo_envelope_def demo_row_def demo_submit_def demo_bundle_def Let_def

text \<open>The theorem at a run: \<open>alice\<close> is connected and connects again.\<close>

subsection \<open>An async function keeps what it awaits until its callback\<close>

lemma awaiting_step_other:
  assumes a: "a < length (awaiting s)" and ne: "\<forall>x. ev \<noteq> Callback a x"
  shows "a < length (awaiting (step s ev)) \<and> awaiting (step s ev) ! a = awaiting s ! a"
proof (cases rule: step_cases[where s=s and ev=ev])
  case Idle
  then show ?thesis using a by simp
next
  case (Register i now)
  then show ?thesis using a by simp
next
  case (Publish i b now)
  then show ?thesis using a by simp
next
  case (Queued f t e u now ok)
  then show ?thesis using a by (simp add: relay_fields)
next
  case (Pushed f t e u now ok ws)
  then show ?thesis using a by (simp add: nth_append)
next
  case (Connected c ok)
  then show ?thesis using a by (simp add: nth_append)
next
  case (Replay c ok r rows)
  then show ?thesis using a by (simp add: nth_append)
next
  case (Replay_next a' ok' h r r' rows)
  with ne have "a' \<noteq> a" by auto
  then show ?thesis using a unfolding Replay_next(4) by simp
next
  case (Replay_done a' ok' h r)
  with ne have "a' \<noteq> a" by auto
  then show ?thesis using a unfolding Replay_done(4) by simp
next
  case (Replay_failed a' ok' h r rows)
  with ne have "a' \<noteq> a" by auto
  then show ?thesis using a unfolding Replay_failed(4) by simp
next
  case (Deliver_done a' ok' r)
  with ne have "a' \<noteq> a" by auto
  then show ?thesis using a unfolding Deliver_done(4) by simp
next
  case (Deliver_failed a' ok' r)
  with ne have "a' \<noteq> a" by auto
  then show ?thesis using a unfolding Deliver_failed(4) by simp
next
  case (Closed ws st)
  then show ?thesis using a by (simp add: relay_fields)
qed

lemma awaiting_foldl_other:
  "a < length (awaiting s) \<Longrightarrow> \<forall>x. Callback a x \<notin> set evs \<Longrightarrow>
   a < length (awaiting (foldl step s evs)) \<and> awaiting (foldl step s evs) ! a = awaiting s ! a"
proof (induction evs arbitrary: s)
  case Nil
  then show ?case by simp
next
  case (Cons ev evs)
  from Cons.prems(2) have ne: "\<forall>x. ev \<noteq> Callback a x" and rest: "\<forall>x. Callback a x \<notin> set evs"
    by auto
  from awaiting_step_other[OF Cons.prems(1) ne]
  have 1: "a < length (awaiting (step s ev))" "awaiting (step s ev) ! a = awaiting s ! a" by simp_all
  from Cons.IH[OF 1(1) rest] 1(2) show ?case by simp
qed

lemma post_messages_unregistered:
  "MessageSchema f t e \<Longrightarrow> \<not> stmtUserExists s t \<Longrightarrow>
   post_messages s f t e u now ok = (Some (Inl Recipient_not_registered), s)"
  by (simp add: post_messages_def)

lemma submit_online:
  fixes e :: envelope and now :: int and ok :: bool
  assumes acc: "MessageSchema f t e" "stmtUserExists s t" "u \<notin> set (map (row_id \<circ> row) (messages s))"
    and ws: "connections s t = Some ws" "ws < length (sockets s)" "readyState (sockets s ! ws) = OPEN"
  defines "r \<equiv> \<lparr>row_id = u, to_id = t, from_id = f, envelope_json = e, created_at = now\<rparr>"
  defines "s' \<equiv> snd (post_messages s f t e u now ok)"
  shows "fst (post_messages s f t e u now ok) = None"
    and "messages s' = messages s @ [\<lparr>row = r, delivered = False\<rparr>]"
    and "awaiting s' = awaiting s @ [Delivering r ok]"
    and "length (sockets s') = length (sockets s)"
    and "\<And>h. h < length (sockets s) \<Longrightarrow>
           sent (sockets s' ! h) = sent (sockets s ! h) @ (if ok \<and> h = ws then [buildMessagePayload r] else [])"
    and "pushes s' = pushes s @ (if ok then [(ws, r)] else [])"
    and "\<forall>x. Callback (length (awaiting s)) x \<notin> set evs \<Longrightarrow>
         callback (foldl step s' evs) (length (awaiting s)) ok' =
           (Some \<lparr>queued = True, delivered_now = ok\<rparr>,
            (if ok then stmtMsgMarkDelivered (foldl step s' evs) u else foldl step s' evs)
              \<lparr>awaiting := (awaiting (foldl step s' evs))[length (awaiting s) := Finished]\<rparr>)"
proof -
  note pm = post_messages_online[OF acc ws, where now=now and ok=ok, folded r_def]
  show "fst (post_messages s f t e u now ok) = None" by (simp add: pm)
  have s': "s' = (push (stmtMsgInsert s r) ws r ok)\<lparr>awaiting := awaiting s @ [Delivering r ok]\<rparr>"
    by (simp add: s'_def pm)
  show "messages s' = messages s @ [\<lparr>row = r, delivered = False\<rparr>]" by (simp add: s' relay_fields)
  show a: "awaiting s' = awaiting s @ [Delivering r ok]" by (simp add: s')
  show "length (sockets s') = length (sockets s)" by (simp add: s' relay_fields)
  show "sent (sockets s' ! h) = sent (sockets s ! h) @ (if ok \<and> h = ws then [buildMessagePayload r] else [])"
    if "h < length (sockets s)" for h
    using that by (simp add: s' relay_fields push_socket)
  show "pushes s' = pushes s @ (if ok then [(ws, r)] else [])"
    using ws(2) by (simp add: s' relay_fields)
  show "callback (foldl step s' evs) (length (awaiting s)) ok' =
           (Some \<lparr>queued = True, delivered_now = ok\<rparr>,
            (if ok then stmtMsgMarkDelivered (foldl step s' evs) u else foldl step s' evs)
              \<lparr>awaiting := (awaiting (foldl step s' evs))[length (awaiting s) := Finished]\<rparr>)"
    if q: "\<forall>x. Callback (length (awaiting s)) x \<notin> set evs"
  proof -
    have l: "length (awaiting s) < length (awaiting s')" by (simp add: a)
    from awaiting_foldl_other[OF l q]
    have 1: "length (awaiting s) < length (awaiting (foldl step s' evs))"
      and 2: "awaiting (foldl step s' evs) ! length (awaiting s) = Delivering r ok"
      by (simp_all add: a)
    show ?thesis unfolding callback_deliver[OF 1 2] by (simp add: r_def)
  qed
qed
















subsection \<open>What a step does to the history, to the waiting functions and to the marks\<close>








subsection \<open>A row that waits for its recipient\<close>









subsection \<open>The progress of one replay\<close>







lemma upto_failure_Nil [simp]: "upto_failure rows [] = []"
  by (cases rows) simp_all



subsection \<open>The one replay that holds a row\<close>













subsection \<open>From the submit to the connection\<close>

















section \<open>The claims about the relay\<close>






text \<open>
  Claim C2. In every state the relay reaches, each identity has at most one open push
  socket, and that one is the socket \<open>connections\<close> holds for it. When a registered
  identity \<open>c\<close> connects, the handler goes through the state \<open>mid\<close> after the close of the
  existing socket and before \<open>connections.set\<close>: there the only open socket of \<open>c\<close> is the
  new one, the socket \<open>connections\<close> still names is no longer open, and if it was open it
  carries the close frame 4000 \<open>superseded\<close>. After \<open>connections.set\<close> the new socket is
  the one held for \<open>c\<close>, and the only open one.
\<close>

theorem at_most_one_live_connection:
  "length (live (run evs) c) \<le> 1
   \<and> live (run evs) c =
       (case connections (run evs) c of
          None \<Rightarrow> []
        | Some h \<Rightarrow> if readyState (sockets (run evs) ! h) = OPEN then [h] else [])
   \<and> (c \<noteq> [] \<and> stmtUserExists (run evs) c \<longrightarrow>
        (let s = run evs; ws = length (sockets s); mid = supersede (handleUpgrade s c) c ws
         in run (evs @ [Upgrade (Some c) ok]) = deliverPending (connections_set mid c ws) c ws ok
          \<and> live mid c = [ws]
          \<and> connections mid c = connections s c
          \<and> (\<forall>old. connections s c = Some old \<longrightarrow>
                 readyState (sockets mid ! old) \<noteq> OPEN \<and>
                 (readyState (sockets s ! old) = OPEN \<longrightarrow>
                    close_frame (sockets mid ! old) = Some (4000, ''superseded'')))
          \<and> live (connections_set mid c ws) c = [ws]
          \<and> connections (connections_set mid c ws) c = Some ws))"
proof -
  have ao: "authoritative_open (run evs)" by (rule wiring_run(1))
  have wf: "conn_wf (run evs)" by (rule wiring_run(2))
  have 1: "length (live (run evs) c) \<le> 1" using ao by (rule live_le_1)
  note 2 = live_connected[OF ao wf, of c]
  note m = supersede_mid[OF ao wf, of c]
  have 3: "run (evs @ [Upgrade (Some c) ok]) =
      deliverPending (connections_set (supersede (handleUpgrade (run evs) c) c (length (sockets (run evs))))
         c (length (sockets (run evs)))) c (length (sockets (run evs))) ok"
    if "c \<noteq> []" "stmtUserExists (run evs) c"
    using that by (simp add: run_append on_upgrade_def on_connection_def)
  show ?thesis
    unfolding Let_def using 1 2 3 m by simp
qed

text \<open>The theorem at a run: \<open>alice\<close> is connected and connects again.\<close>

theorem at_most_one_live_connection_witness:
  "''alice'' \<noteq> [] \<and> stmtUserExists (run [Register ''alice'' 1, Upgrade (Some ''alice'') True]) ''alice''
   \<and> connections (run [Register ''alice'' 1, Upgrade (Some ''alice'') True]) ''alice'' = Some 0
   \<and> readyState (sockets (run [Register ''alice'' 1, Upgrade (Some ''alice'') True]) ! 0) = OPEN
   \<and> live (run [Register ''alice'' 1, Upgrade (Some ''alice'') True]) ''alice'' = [0]
   \<and> live (supersede (handleUpgrade (run [Register ''alice'' 1, Upgrade (Some ''alice'') True])
                        ''alice'') ''alice'' 1) ''alice'' = [1]
   \<and> close_frame (sockets (supersede (handleUpgrade (run [Register ''alice'' 1,
           Upgrade (Some ''alice'') True]) ''alice'') ''alice'' 1) ! 0) = Some (4000, ''superseded'')"
proof -
  have h: "''alice'' \<noteq> [] \<and> stmtUserExists (run [Register ''alice'' 1, Upgrade (Some ''alice'') True]) ''alice''"
    by (simp add: relay_eval)
  have c: "connections (run [Register ''alice'' 1, Upgrade (Some ''alice'') True]) ''alice'' = Some 0"
    by (simp add: relay_eval)
  have o: "readyState (sockets (run [Register ''alice'' 1, Upgrade (Some ''alice'') True]) ! 0) = OPEN"
    by (simp add: relay_eval)
  have n: "length (sockets (run [Register ''alice'' 1, Upgrade (Some ''alice'') True])) = 1"
    by (simp add: relay_eval)
  from at_most_one_live_connection[of "[Register ''alice'' 1, Upgrade (Some ''alice'') True]"
      "''alice''" True]
  show ?thesis
    using h c o by (simp add: Let_def n)
qed

text \<open>
  Claim C3. A submit whose request passes \<open>MessageSchema\<close>: when the recipient \<open>t\<close> is
  not registered the answer is 404 \<open>Recipient not registered\<close> and the state of the relay
  is the one before, so no row is created. When \<open>t\<close> is registered (and \<open>randomUUID\<close>
  gave an id that is not yet a key of the table) exactly one row is appended to the
  table, unmarked. If \<open>t\<close> holds no open socket the handler answers at once
  \<open>queued: true, delivered: false\<close>, and no socket, no history and no waiting function
  has changed. If \<open>t\<close> holds the open socket \<open>ws\<close> the handler calls the send on \<open>ws\<close>
  and awaits: the payload of the row is what \<open>ws\<close> receives next when the send succeeds
  (\<open>ok\<close>), no socket receives anything else, and the handler waits at the position \<open>a\<close>.
  Whatever happens before the callback of that send, at the callback the handler
  answers \<open>queued: true\<close> with \<open>delivered\<close> being the outcome of the send, and it marks the
  row exactly when the send succeeded.
\<close>

theorem submit_registered_or_not:
  assumes "MessageSchema f t e"
  shows "(\<not> stmtUserExists s t \<longrightarrow>
            post_messages s f t e u now ok = (Some (Inl Recipient_not_registered), s) \<and>
            status Recipient_not_registered = 404)
       \<and> (stmtUserExists s t \<and> u \<notin> set (map (row_id \<circ> row) (messages s)) \<longrightarrow>
            (let r = \<lparr>row_id = u, to_id = t, from_id = f, envelope_json = e, created_at = now\<rparr>;
                 s' = snd (post_messages s f t e u now ok);
                 a = length (awaiting s)
             in messages s' = messages s @ [\<lparr>row = r, delivered = False\<rparr>]
              \<and> (\<not> (\<exists>ws. connections s t = Some ws \<and> ws < length (sockets s) \<and>
                          readyState (sockets s ! ws) = OPEN) \<longrightarrow>
                   fst (post_messages s f t e u now ok) =
                     Some (Inr \<lparr>queued = True, delivered_now = False\<rparr>) \<and>
                   sockets s' = sockets s \<and> pushes s' = pushes s \<and> awaiting s' = awaiting s)
              \<and> (\<forall>ws. connections s t = Some ws \<and> ws < length (sockets s) \<and>
                       readyState (sockets s ! ws) = OPEN \<longrightarrow>
                   fst (post_messages s f t e u now ok) = None \<and>
                   awaiting s' = awaiting s @ [Delivering r ok] \<and>
                   length (sockets s') = length (sockets s) \<and>
                   (\<forall>h < length (sockets s).
                      sent (sockets s' ! h) =
                        sent (sockets s ! h) @ (if ok \<and> h = ws then [buildMessagePayload r] else [])) \<and>
                   pushes s' = pushes s @ (if ok then [(ws, r)] else []) \<and>
                   (\<forall>evs ok'. (\<forall>x. Callback a x \<notin> set evs) \<longrightarrow>
                      callback (foldl step s' evs) a ok' =
                        (Some \<lparr>queued = True, delivered_now = ok\<rparr>,
                         (if ok then stmtMsgMarkDelivered (foldl step s' evs) u else foldl step s' evs)
                           \<lparr>awaiting := (awaiting (foldl step s' evs))[a := Finished]\<rparr>)))))"
proof (intro conjI impI)
  assume "\<not> stmtUserExists s t"
  then show "post_messages s f t e u now ok = (Some (Inl Recipient_not_registered), s)"
    using assms by (simp add: post_messages_unregistered)
next
  show "status Recipient_not_registered = 404" by simp
next
  assume a: "stmtUserExists s t \<and> u \<notin> set (map (row_id \<circ> row) (messages s))"
  let ?r = "\<lparr>row_id = u, to_id = t, from_id = f, envelope_json = e, created_at = now\<rparr>"
  let ?s' = "snd (post_messages s f t e u now ok)"
  from a have acc: "stmtUserExists s t" "u \<notin> set (map (row_id \<circ> row) (messages s))" by simp_all
  have m: "messages ?s' = messages s @ [\<lparr>row = ?r, delivered = False\<rparr>]"
  proof (cases "\<exists>ws. connections s t = Some ws \<and> ws < length (sockets s) \<and> readyState (sockets s ! ws) = OPEN")
    case True
    then obtain ws where ws: "connections s t = Some ws" "ws < length (sockets s)"
      "readyState (sockets s ! ws) = OPEN" by blast
    from submit_online(2)[OF assms acc ws, where now=now and ok=ok] show ?thesis .
  next
    case False
    from post_messages_offline[OF assms acc False, where now=now and ok=ok] show ?thesis
      by (simp add: relay_fields)
  qed
  have off: "fst (post_messages s f t e u now ok) = Some (Inr \<lparr>queued = True, delivered_now = False\<rparr>) \<and>
       sockets ?s' = sockets s \<and> pushes ?s' = pushes s \<and> awaiting ?s' = awaiting s"
    if "\<not> (\<exists>ws. connections s t = Some ws \<and> ws < length (sockets s) \<and> readyState (sockets s ! ws) = OPEN)"
    using post_messages_offline[OF assms acc that, where now=now and ok=ok] by (simp add: relay_fields)
  have on: "fst (post_messages s f t e u now ok) = None \<and>
       awaiting ?s' = awaiting s @ [Delivering ?r ok] \<and>
       length (sockets ?s') = length (sockets s) \<and>
       (\<forall>h < length (sockets s).
          sent (sockets ?s' ! h) =
            sent (sockets s ! h) @ (if ok \<and> h = ws then [buildMessagePayload ?r] else [])) \<and>
       pushes ?s' = pushes s @ (if ok then [(ws, ?r)] else []) \<and>
       (\<forall>evs ok'. (\<forall>x. Callback (length (awaiting s)) x \<notin> set evs) \<longrightarrow>
          callback (foldl step ?s' evs) (length (awaiting s)) ok' =
            (Some \<lparr>queued = True, delivered_now = ok\<rparr>,
             (if ok then stmtMsgMarkDelivered (foldl step ?s' evs) u else foldl step ?s' evs)
               \<lparr>awaiting := (awaiting (foldl step ?s' evs))[length (awaiting s) := Finished]\<rparr>))"
    if "connections s t = Some ws \<and> ws < length (sockets s) \<and> readyState (sockets s ! ws) = OPEN" for ws
  proof -
    from that have ws: "connections s t = Some ws" "ws < length (sockets s)"
      "readyState (sockets s ! ws) = OPEN" by simp_all
    note so = submit_online[OF assms acc ws, where now=now and ok=ok]
    show ?thesis
      using so(1) so(3) so(4) so(5) so(6) so(7) by blast
  qed
  show "let r = ?r; s' = ?s'; a = length (awaiting s)
        in messages s' = messages s @ [\<lparr>row = r, delivered = False\<rparr>]
              \<and> (\<not> (\<exists>ws. connections s t = Some ws \<and> ws < length (sockets s) \<and>
                          readyState (sockets s ! ws) = OPEN) \<longrightarrow>
                   fst (post_messages s f t e u now ok) =
                     Some (Inr \<lparr>queued = True, delivered_now = False\<rparr>) \<and>
                   sockets s' = sockets s \<and> pushes s' = pushes s \<and> awaiting s' = awaiting s)
              \<and> (\<forall>ws. connections s t = Some ws \<and> ws < length (sockets s) \<and>
                       readyState (sockets s ! ws) = OPEN \<longrightarrow>
                   fst (post_messages s f t e u now ok) = None \<and>
                   awaiting s' = awaiting s @ [Delivering r ok] \<and>
                   length (sockets s') = length (sockets s) \<and>
                   (\<forall>h < length (sockets s).
                      sent (sockets s' ! h) =
                        sent (sockets s ! h) @ (if ok \<and> h = ws then [buildMessagePayload r] else [])) \<and>
                   pushes s' = pushes s @ (if ok then [(ws, r)] else []) \<and>
                   (\<forall>evs ok'. (\<forall>x. Callback a x \<notin> set evs) \<longrightarrow>
                      callback (foldl step s' evs) a ok' =
                        (Some \<lparr>queued = True, delivered_now = ok\<rparr>,
                         (if ok then stmtMsgMarkDelivered (foldl step s' evs) u else foldl step s' evs)
                           \<lparr>awaiting := (awaiting (foldl step s' evs))[a := Finished]\<rparr>)))"
    unfolding Let_def using m off on by blast
qed

text \<open>
  The theorem at a relay that knows \<open>bob\<close> only: a submit to \<open>carol\<close>, one to \<open>bob\<close>
  while he is away, and one to \<open>bob\<close> on his open socket, with a send that succeeds and
  with one that fails.
\<close>

theorem submit_registered_or_not_witness:
  "MessageSchema ''alice'' ''carol'' (demo_envelope ''hello'')
   \<and> \<not> stmtUserExists (run [Register ''bob'' 1]) ''carol''
   \<and> post_messages (run [Register ''bob'' 1]) ''alice'' ''carol'' (demo_envelope ''hello'') ''m1'' 5 True =
       (Some (Inl Recipient_not_registered), run [Register ''bob'' 1])
   \<and> stmtUserExists (run [Register ''bob'' 1]) ''bob''
   \<and> fst (post_messages (run [Register ''bob'' 1]) ''alice'' ''bob'' (demo_envelope ''hello'') ''m1'' 5 True) =
       Some (Inr \<lparr>queued = True, delivered_now = False\<rparr>)
   \<and> messages (snd (post_messages (run [Register ''bob'' 1]) ''alice'' ''bob'' (demo_envelope ''hello'') ''m1'' 5 True)) =
       [\<lparr>row = demo_row ''m1'' ''hello'' 5, delivered = False\<rparr>]
   \<and> sockets (snd (post_messages (run [Register ''bob'' 1]) ''alice'' ''bob'' (demo_envelope ''hello'') ''m1'' 5 True)) = []
   \<and> connections (run [Register ''bob'' 1, Upgrade (Some ''bob'') True]) ''bob'' = Some 0
   \<and> readyState (sockets (run [Register ''bob'' 1, Upgrade (Some ''bob'') True]) ! 0) = OPEN
   \<and> fst (post_messages (run [Register ''bob'' 1, Upgrade (Some ''bob'') True])
            ''alice'' ''bob'' (demo_envelope ''hello'') ''m1'' 5 True) = None
   \<and> sent (sockets (snd (post_messages (run [Register ''bob'' 1, Upgrade (Some ''bob'') True])
            ''alice'' ''bob'' (demo_envelope ''hello'') ''m1'' 5 True)) ! 0) =
       [buildMessagePayload (demo_row ''m1'' ''hello'' 5)]
   \<and> fst (callback (snd (post_messages (run [Register ''bob'' 1, Upgrade (Some ''bob'') True])
            ''alice'' ''bob'' (demo_envelope ''hello'') ''m1'' 5 True)) 1 True) =
       Some \<lparr>queued = True, delivered_now = True\<rparr>
   \<and> messages (snd (callback (snd (post_messages (run [Register ''bob'' 1, Upgrade (Some ''bob'') True])
            ''alice'' ''bob'' (demo_envelope ''hello'') ''m1'' 5 True)) 1 True)) =
       [\<lparr>row = demo_row ''m1'' ''hello'' 5, delivered = True\<rparr>]
   \<and> fst (post_messages (run [Register ''bob'' 1, Upgrade (Some ''bob'') True])
            ''alice'' ''bob'' (demo_envelope ''hello'') ''m1'' 5 False) = None
   \<and> sent (sockets (snd (post_messages (run [Register ''bob'' 1, Upgrade (Some ''bob'') True])
            ''alice'' ''bob'' (demo_envelope ''hello'') ''m1'' 5 False)) ! 0) = []
   \<and> fst (callback (snd (post_messages (run [Register ''bob'' 1, Upgrade (Some ''bob'') True])
            ''alice'' ''bob'' (demo_envelope ''hello'') ''m1'' 5 False)) 1 True) =
       Some \<lparr>queued = True, delivered_now = False\<rparr>"
proof -
  let ?off = "run [Register ''bob'' 1]"
  let ?on = "run [Register ''bob'' 1, Upgrade (Some ''bob'') True]"
  have v1: "MessageSchema ''alice'' ''carol'' (demo_envelope ''hello'')"
    and v2: "MessageSchema ''alice'' ''bob'' (demo_envelope ''hello'')"
    by (simp_all add: MessageSchema_def EnvelopeSchema_def demo_envelope_def)
  have u: "\<not> stmtUserExists ?off ''carol''"
    and r: "stmtUserExists ?off ''bob'' \<and> ''m1'' \<notin> set (map (row_id \<circ> row) (messages ?off))"
    and m: "messages ?off = []" "sockets ?off = []"
    and c: "\<not> (\<exists>ws. connections ?off ''bob'' = Some ws \<and> ws < length (sockets ?off) \<and>
                    readyState (sockets ?off ! ws) = OPEN)"
    by (simp_all add: relay_eval)
  have r': "stmtUserExists ?on ''bob'' \<and> ''m1'' \<notin> set (map (row_id \<circ> row) (messages ?on))"
    and m': "messages ?on = []" "length (sockets ?on) = 1" "sent (sockets ?on ! 0) = []"
       "length (awaiting ?on) = 1"
    and c': "connections ?on ''bob'' = Some 0 \<and> 0 < length (sockets ?on) \<and>
             readyState (sockets ?on ! 0) = OPEN"
    by (simp_all add: relay_eval)
  note A = submit_registered_or_not[OF v1, of ?off "''m1''" 5 True, THEN conjunct1, rule_format, OF u]
  note B = submit_registered_or_not[OF v2, of ?off "''m1''" 5 True, unfolded Let_def,
      THEN conjunct2, rule_format, OF r]
  note B1 = B[THEN conjunct1] and B2 = B[THEN conjunct2, THEN conjunct1, rule_format, OF c]
  note C = submit_registered_or_not[OF v2, of ?on "''m1''" 5 True, unfolded Let_def,
      THEN conjunct2, rule_format, OF r', THEN conjunct2, THEN conjunct2, rule_format, OF c']
  note D = submit_registered_or_not[OF v2, of ?on "''m1''" 5 False, unfolded Let_def,
      THEN conjunct2, rule_format, OF r', THEN conjunct2, THEN conjunct2, rule_format, OF c']
  note C1 = C[THEN conjunct1]
    and C4 = C[THEN conjunct2, THEN conjunct2, THEN conjunct2, THEN conjunct1, rule_format, of 0]
    and C6 = C[THEN conjunct2, THEN conjunct2, THEN conjunct2, THEN conjunct2, THEN conjunct2,
        rule_format, of "[]" True]
  note D1 = D[THEN conjunct1]
    and D4 = D[THEN conjunct2, THEN conjunct2, THEN conjunct2, THEN conjunct1, rule_format, of 0]
    and D6 = D[THEN conjunct2, THEN conjunct2, THEN conjunct2, THEN conjunct2, THEN conjunct2,
        rule_format, of "[]" True]
  have Cm: "messages (snd (post_messages ?on ''alice'' ''bob'' (demo_envelope ''hello'') ''m1'' 5 True)) =
      [\<lparr>row = demo_row ''m1'' ''hello'' 5, delivered = False\<rparr>]"
    using submit_registered_or_not[OF v2, of ?on "''m1''" 5 True, unfolded Let_def,
      THEN conjunct2, rule_format, OF r', THEN conjunct1]
    by (simp add: m' demo_row_def)
  show ?thesis
    using v1 u A r B1 B2 c' C1 C4 C6 D1 D4 D6 Cm
    by (simp add: m m' demo_row_def stmtMsgMarkDelivered_def)
qed




section \<open>Properties of the store\<close>

lemma digit_in: "d < 10 \<Longrightarrow> digit d \<in> decimal_chars"
  unfolding digit_def decimal_chars_def by (rule nth_mem) simp

lemma not_decimal:
  "CHR ''-'' \<notin> decimal_chars" "CHR ''.'' \<notin> decimal_chars" "CHR ''u'' \<notin> decimal_chars"
  by (simp_all add: decimal_chars_def)

lemma digit_inj: "d < 10 \<Longrightarrow> d' < 10 \<Longrightarrow> digit d = digit d' \<Longrightarrow> d = d'"
proof -
  have "distinct ''0123456789''" by simp
  then show "d < 10 \<Longrightarrow> d' < 10 \<Longrightarrow> digit d = digit d' \<Longrightarrow> d = d'"
    unfolding digit_def by (simp add: nth_eq_iff_index_eq)
qed

lemma show_nat_digits: "set (show_nat n) \<subseteq> decimal_chars"
proof (induction n rule: show_nat.induct)
  case (1 n)
  show ?case
  proof (cases "n < 10")
    case True
    then show ?thesis using digit_in[of n] by (subst show_nat.simps) simp
  next
    case False
    then show ?thesis
      using 1 digit_in[of "n mod 10"] by (subst show_nat.simps) simp
  qed
qed

lemma show_nat_nonempty: "show_nat n \<noteq> []"
  by (subst show_nat.simps) simp

lemma show_nat_inj: "show_nat n = show_nat m \<Longrightarrow> n = m"
proof (induction n arbitrary: m rule: show_nat.induct)
  case (1 n)
  show ?case
  proof (cases "n < 10")
    case n: True
    show ?thesis
    proof (cases "m < 10")
      case True
      with n 1(2) show ?thesis
        by (simp add: show_nat.simps[of n] show_nat.simps[of m] digit_inj)
    next
      case False
      with n 1(2) show_nat_nonempty[of "m div 10"] show ?thesis
        by (simp add: show_nat.simps[of n] show_nat.simps[of m] Cons_eq_append_conv)
    qed
  next
    case n: False
    show ?thesis
    proof (cases "m < 10")
      case True
      with n 1(2) show_nat_nonempty[of "n div 10"] show ?thesis
        by (simp add: show_nat.simps[of n] show_nat.simps[of m] append_eq_Cons_conv)
    next
      case False
      with n 1(2) have e: "show_nat (n div 10) = show_nat (m div 10)"
        and d: "digit (n mod 10) = digit (m mod 10)"
        by (simp_all add: show_nat.simps[of n] show_nat.simps[of m])
      from 1(1)[OF n e] have "n div 10 = m div 10" .
      moreover from d have "n mod 10 = m mod 10" by (intro digit_inj) simp_all
      ultimately have "n div 10 * 10 + n mod 10 = m div 10 * 10 + m mod 10" by simp
      then show ?thesis by (simp only: div_mult_mod_eq)
    qed
  qed
qed

lemma show_nat_hd: "show_nat n = c # cs \<Longrightarrow> c \<in> decimal_chars"
proof -
  assume "show_nat n = c # cs"
  then have "c \<in> set (show_nat n)" by simp
  with show_nat_digits[of n] show "c \<in> decimal_chars" by blast
qed

lemma show_int_chars: "set (show_int i) \<subseteq> insert CHR ''-'' decimal_chars"
proof (cases "i < 0")
  case True
  then have "show_int i = CHR ''-'' # show_nat (nat (- i))" by (simp add: show_int_def)
  then show ?thesis using show_nat_digits[of "nat (- i)"] by auto
next
  case False
  then have "show_int i = show_nat (nat i)" by (simp add: show_int_def)
  then show ?thesis using show_nat_digits[of "nat i"] by auto
qed


lemma show_int_inj: "show_int i = show_int j \<Longrightarrow> i = j"
proof -
  assume a: "show_int i = show_int j"
  show ?thesis
  proof (cases "i < 0")
    case i: True
    show ?thesis
    proof (cases "j < 0")
      case True
      with i a have "show_nat (nat (- i)) = show_nat (nat (- j))" by (simp add: show_int_def)
      then have "nat (- i) = nat (- j)" by (rule show_nat_inj)
      with i True show ?thesis by simp
    next
      case False
      with i a have "show_nat (nat j) = CHR ''-'' # show_nat (nat (- i))" by (simp add: show_int_def)
      from show_nat_hd[OF this] show ?thesis by (simp add: not_decimal)
    qed
  next
    case i: False
    show ?thesis
    proof (cases "j < 0")
      case True
      with i a have "show_nat (nat i) = CHR ''-'' # show_nat (nat (- j))" by (simp add: show_int_def)
      from show_nat_hd[OF this] show ?thesis by (simp add: not_decimal)
    next
      case False
      with i a have "show_nat (nat i) = show_nat (nat j)" by (simp add: show_int_def)
      then have "nat i = nat j" by (rule show_nat_inj)
      with i False show ?thesis by simp
    qed
  qed
qed


lemma show_int_hd: "show_int i = c # cs \<Longrightarrow> c \<in> insert CHR ''-'' decimal_chars"
proof -
  assume "show_int i = c # cs"
  then have "c \<in> set (show_int i)" by simp
  with show_int_chars[of i] show ?thesis by blast
qed

lemma show_int_not_used: "show_int i \<noteq> ''used:'' @ x"
proof
  assume "show_int i = ''used:'' @ x"
  then have "show_int i = CHR ''u'' # (''sed:'' @ x)" by simp
  from show_int_hd[OF this] show False by (simp add: not_decimal)
qed


lemma store_get_authenticated:
  "store_get L s k = Inr (Some v) \<Longrightarrow>
     \<exists>payload plaintext. db_kv s k = Some payload \<and>
        gcm_open L (store_key s) (take 12 payload) (take 16 (drop 12 payload)) (drop 28 payload) = Some plaintext \<and>
        decodeValue L plaintext = Inr v"
  by (auto simp: store_get_def decryptJson_def decryptBuffer_def IV_LENGTH_def TAG_LENGTH_def Let_def
           split: option.splits sum.splits)

lemma store_get_tamper:
  "db_kv s k = Some payload \<Longrightarrow>
   gcm_open L (store_key s) (take 12 payload) (take 16 (drop 12 payload)) (drop 28 payload) = None \<Longrightarrow>
   store_get L s k = Inl TamperOrWrongPassphrase"
  by (simp add: store_get_def decryptJson_def decryptBuffer_def IV_LENGTH_def TAG_LENGTH_def Let_def)

lemma is_json_replacer: "is_json (replacer L v)"
  by (induction L v rule: replacer.induct) (auto simp: tagged_def list_all_iff)

lemma collect_map_Inr:
  assumes "\<And>x. x \<in> set xs \<Longrightarrow> f x = Inr (g x)"
  shows "collect (map f xs) = Inr (map g xs)"
  using assms by (induction xs) simp_all

lemma replacer_eq_tag: "replacer L v = JStr ''ab'' \<longleftrightarrow> v = JStr ''ab''"
  by (cases v) (simp_all add: tagged_def)

lemma as_Uint8Array_eq_tag: "as_Uint8Array v = JStr ''ab'' \<longleftrightarrow> v = JStr ''ab''"
  by (cases v) simp_all

lemma map_of_map_snd:
  "map_of (map (\<lambda>kv. (fst kv, f (snd kv))) kvs) k = map_option f (map_of kvs k)"
  by (induction kvs) auto

lemma reviver_replacer:
  assumes b64: "\<And>bs. Buffer_from_base64 L (Some (JStr (base64_of L bs))) = Some bs"
  shows "untagged v \<Longrightarrow> reviver L (replacer L v) = Inr (as_Uint8Array v)"
proof (induction v)
  case (JArr xs)
  have "collect (map (reviver L) (map (replacer L) xs)) = Inr (map as_Uint8Array xs)"
    unfolding map_map
    by (rule collect_map_Inr) (use JArr in \<open>auto simp: list_all_iff\<close>)
  then show ?case by simp
next
  case (JObj kvs)
  let ?f = "\<lambda>kv. case reviver L (snd kv) of Inl e \<Rightarrow> Inl e | Inr v \<Rightarrow> Inr (fst kv, v)"
  have IH: "\<And>kv. kv \<in> set kvs \<Longrightarrow> reviver L (replacer L (snd kv)) = Inr (as_Uint8Array (snd kv))"
  proof -
    fix kv assume kv: "kv \<in> set kvs"
    then have "untagged (snd kv)" using JObj.prems by (auto simp: list_all_iff)
    moreover have "snd kv \<in> Basic_BNFs.snds kv" by (cases kv) simp
    ultimately show "reviver L (replacer L (snd kv)) = Inr (as_Uint8Array (snd kv))"
      using JObj.IH[OF kv] by blast
  qed
  have c: "collect (map ?f (map (\<lambda>kv. (fst kv, replacer L (snd kv))) kvs)) =
           Inr (map (\<lambda>kv. (fst kv, as_Uint8Array (snd kv))) kvs)"
    unfolding map_map
    by (rule collect_map_Inr) (simp add: IH)
  have nt: "map_of (map (\<lambda>kv. (fst kv, as_Uint8Array (snd kv))) kvs) ''__type'' \<noteq> Some (JStr ''ab'')"
    using JObj.prems by (auto simp: map_of_map_snd as_Uint8Array_eq_tag)
  show ?case using c nt by simp
qed (simp_all add: tagged_def b64)

lemma char_of_byte_of_char [simp]: "char_of_byte (byte_of_char c) = c"
proof -
  have "of_char c < (256 :: nat)" by simp
  then have "unat (of_nat (of_char c) :: byte) = of_char c"
    by (simp add: unat_of_nat)
  then show ?thesis by (simp add: char_of_byte_def byte_of_char_def)
qed

lemma byte_of_char_of_byte [simp]: "byte_of_char (char_of_byte w) = w"
proof -
  have "unat w < 2 ^ LENGTH(8)" by (rule unsigned_less)
  then have "unat w < 256" by simp
  then show ?thesis by (simp add: char_of_byte_def byte_of_char_def)
qed

lemma dec_nat_enc [simp]: "dec_nat (enc_nat n @ r) = (n, r)"
  by (induction n) (simp_all add: enc_nat_def)

lemma foldr_max_ge: "x \<in> set xs \<Longrightarrow> (f x :: nat) \<le> foldr max (map f xs) 0"
  by (induction xs) auto

lemma toy_dec_arr_enc:
  assumes "\<And>x r. x \<in> set xs \<Longrightarrow> toy_dec f (toy_enc x @ r) = Some (x, r)"
  shows "toy_dec_arr f (length xs) (concat (map toy_enc xs) @ r) = Some (xs, r)"
  using assms by (induction xs arbitrary: r) simp_all

lemma toy_dec_obj_enc:
  assumes "\<And>kv r. kv \<in> set kvs \<Longrightarrow> toy_dec f (toy_enc (snd kv) @ r) = Some (snd kv, r)"
  shows "toy_dec_obj f (length kvs)
           (concat (map (\<lambda>kv. enc_str (fst kv) @ toy_enc (snd kv)) kvs) @ r) = Some (kvs, r)"
  using assms by (induction kvs arbitrary: r) (simp_all add: enc_str_def comp_def)

lemma toy_dec_enc:
  "is_json j \<Longrightarrow> depth j \<le> f \<Longrightarrow> toy_dec f (toy_enc j @ r) = Some (j, r)"
proof (induction j arbitrary: f r)
  case (JArr xs)
  then obtain f' where f: "f = Suc f'" by (cases f) auto
  have "toy_dec_arr f' (length xs) (concat (map toy_enc xs) @ r) = Some (xs, r)"
  proof (rule toy_dec_arr_enc)
    fix x r' assume x: "x \<in> set xs"
    then have "is_json x" using JArr.prems(1) by (simp add: list_all_iff)
    moreover have "depth x \<le> f'" using foldr_max_ge[OF x, of depth] JArr.prems(2) f by simp
    ultimately show "toy_dec f' (toy_enc x @ r') = Some (x, r')" using JArr.IH[OF x] by blast
  qed
  then show ?case by (simp add: f)
next
  case (JObj kvs)
  then obtain f' where f: "f = Suc f'" by (cases f) auto
  have "toy_dec_obj f' (length kvs)
           (concat (map (\<lambda>kv. enc_str (fst kv) @ toy_enc (snd kv)) kvs) @ r) = Some (kvs, r)"
  proof (rule toy_dec_obj_enc)
    fix kv r' assume kv: "kv \<in> set kvs"
    then have "is_json (snd kv)" using JObj.prems(1) by (simp add: list_all_iff)
    moreover have "depth (snd kv) \<le> f'"
      using foldr_max_ge[OF kv, of "\<lambda>kv. depth (snd kv)"] JObj.prems(2) f by simp
    moreover have "snd kv \<in> Basic_BNFs.snds kv" by (cases kv) simp
    ultimately show "toy_dec f' (toy_enc (snd kv) @ r') = Some (snd kv, r')"
      using JObj.IH[OF kv] by blast
  qed
  then show ?case by (simp add: f)
next
  case (JNum i)
  then obtain f' where f: "f = Suc f'" by (cases f) auto
  show ?case by (auto simp: f)
next
  case (JStr s)
  then obtain f' where f: "f = Suc f'" by (cases f) auto
  show ?case by (simp add: f enc_str_def comp_def)
next
  case JNull
  then obtain f' where f: "f = Suc f'" by (cases f) auto
  show ?case by (simp add: f)
next
  case (JBool b)
  then obtain f' where f: "f = Suc f'" by (cases f) auto
  show ?case by (simp add: f)
qed simp_all

lemma toy_JSON_roundtrip: "is_json j \<Longrightarrow> toy_JSON_tree (toy_JSON_text j) = Some j"
  using toy_dec_enc[of j "depth j" "[]"]
  by (simp add: toy_JSON_tree_def toy_JSON_text_def)

lemma node_ok_toy: "node_ok toy_node"
  by (simp add: node_ok_def toy_node_def toy_tag_def TAG_LENGTH_def toy_JSON_roundtrip comp_def)

lemma decryptBuffer_encryptBuffer:
  assumes "node_ok L"
  shows "decryptBuffer L k (encryptBuffer L k plaintext n) = Inr plaintext"
proof -
  define iv where "iv = randomBytes L n IV_LENGTH"
  obtain ciphertext tag where st: "gcm_seal L k iv plaintext = (ciphertext, tag)"
    by (cases "gcm_seal L k iv plaintext")
  have liv: "length iv = IV_LENGTH" using assms by (simp add: node_ok_def iv_def)
  from assms liv have "length (snd (gcm_seal L k iv plaintext)) = TAG_LENGTH \<and>
        gcm_open L k iv (snd (gcm_seal L k iv plaintext)) (fst (gcm_seal L k iv plaintext)) =
          Some plaintext"
    unfolding node_ok_def by blast
  with st have lt: "length tag = TAG_LENGTH"
    and op: "gcm_open L k iv tag ciphertext = Some plaintext"
    by simp_all
  have e: "encryptBuffer L k plaintext n = iv @ tag @ ciphertext"
    by (simp add: encryptBuffer_def iv_def[symmetric] st)
  show ?thesis
    unfolding e decryptBuffer_def Let_def using liv lt op by simp
qed

lemma decodeValue_encodeValue:
  assumes "node_ok L"
  shows "decodeValue L (encodeValue L v) = reviver L (replacer L v)"
  using assms is_json_replacer[of L v] by (simp add: decodeValue_def encodeValue_def node_ok_def)

lemma decryptJson_encryptJson:
  assumes "node_ok L"
  shows "decryptJson L k (encryptJson L k v n) = reviver L (replacer L v)"
  by (simp add: decryptJson_def encryptJson_def decryptBuffer_encryptBuffer[OF assms]
        decodeValue_encodeValue[OF assms])

lemma store_get_set_raw:
  assumes "node_ok L"
  shows "store_get L (store_set L s k v) k =
           (case reviver L (replacer L v) of Inl e \<Rightarrow> Inl e | Inr w \<Rightarrow> Inr (Some w))"
  by (simp add: store_get_def store_set_def decryptJson_encryptJson[OF assms])

lemma store_get_set_same:
  assumes "node_ok L" "untagged v"
  shows "store_get L (store_set L s k v) k = Inr (Some (as_Uint8Array v))"
proof -
  have "reviver L (replacer L v) = Inr (as_Uint8Array v)"
    using assms by (intro reviver_replacer) (simp_all add: node_ok_def)
  then show ?thesis by (simp add: store_get_set_raw[OF assms(1)])
qed

lemma store_get_set_other:
  "k' \<noteq> k \<Longrightarrow> store_get L (store_set L s k v) k' = store_get L s k'"
  by (simp add: store_get_def store_set_def split: option.splits)

lemma store_set_frame:
  "store_key (store_set L s k v) = store_key s"
  "meta_localId (store_set L s k v) = meta_localId s"
  "meta_deviceId (store_set L s k v) = meta_deviceId s"
  "meta_registrationId (store_set L s k v) = meta_registrationId s"
  "draws (store_set L s k v) = Suc (draws s)"
  "k' \<noteq> k \<Longrightarrow> db_kv (store_set L s k v) k' = db_kv s k'"
  "db_kv (store_set L s k v) k \<noteq> None"
  by (simp_all add: store_set_def)

subsection \<open>The small platform keeps the laws\<close>

lemma get_put_bytes [simp]: "get_bytes (put_bytes bs @ r) = (bs, r)"
  by (simp add: get_bytes_def put_bytes_def)

lemma get_put_int [simp]: "get_int (put_int i @ r) = (i, r)"
  by (simp add: put_int_def)

lemma key_bytes [simp]:
  "PublicKey (public_bytes k) = k" "PrivateKey (private_bytes q) = q"
  "KEMKeyPair (kem_public kp) (kem_secret kp) = kp"
  by (cases k, simp) (cases q, simp, cases kp, simp)

lemma lib_ok_toy: "lib_ok toy_lib"
  unfolding lib_ok_def
proof (intro conjI allI)
  fix r :: identity_key_pair
  show "IdentityKeyPair_deserialize toy_lib (IdentityKeyPair_serialize toy_lib r) = Some r"
    using get_put_bytes[of "private_bytes (ik_private r)" "[]"]
    by (simp add: toy_lib_def toy_IdentityKeyPair_deserialize_def)
next
  fix r :: pre_key_record
  show "PreKeyRecord_deserialize toy_lib (PreKeyRecord_serialize toy_lib r) = Some r"
    using get_put_bytes[of "private_bytes (pkr_private r)" "[]"]
    by (simp add: toy_lib_def toy_PreKeyRecord_deserialize_def)
next
  fix r :: signed_pre_key_record
  show "SignedPreKeyRecord_deserialize toy_lib (SignedPreKeyRecord_serialize toy_lib r) = Some r"
    using get_put_bytes[of "spk_signature r" "[]"]
    by (simp add: toy_lib_def toy_SignedPreKeyRecord_deserialize_def)
next
  fix r :: kyber_pre_key_record
  show "KyberPreKeyRecord_deserialize toy_lib (KyberPreKeyRecord_serialize toy_lib r) = Some r"
    using get_put_bytes[of "kpk_signature r" "[]"]
    by (simp add: toy_lib_def toy_KyberPreKeyRecord_deserialize_def)
qed

lemma platform_ok_toy: "platform_ok toy"
  by (simp add: platform_ok_def toy_def node_ok_toy lib_ok_toy)

subsection \<open>Frames of the store adapters\<close>

lemma store_get_cong:
  "db_kv s' k = db_kv s k \<Longrightarrow> store_key s' = store_key s \<Longrightarrow> store_get L s' k = store_get L s k"
  by (simp add: store_get_def split: option.splits)

lemma tick_frame:
  "db_kv (tick s) = db_kv s" "store_key (tick s) = store_key s" "draws (tick s) = Suc (draws s)"
  "meta_localId (tick s) = meta_localId s" "meta_deviceId (tick s) = meta_deviceId s"
  "meta_registrationId (tick s) = meta_registrationId s"
  by (simp_all add: tick_def)

lemma prekey_key_inj: "prekey_key i = prekey_key j \<longleftrightarrow> i = j"
proof
  assume "prekey_key i = prekey_key j"
  then have "show_int i = show_int j" by (simp add: prekey_key_def)
  then show "i = j" by (rule show_int_inj)
qed simp

lemma prekey_key_not_used: "prekey_key j \<noteq> prekey_used_key i"
  using show_int_not_used[of j "show_int i"] by (simp add: prekey_key_def prekey_used_key_def)

lemma getPreKey_cong:
  "db_kv s' (prekey_key i) = db_kv s (prekey_key i) \<Longrightarrow> store_key s' = store_key s \<Longrightarrow>
   getPreKey P s' i = getPreKey P s i"
  using store_get_cong[of s' "prekey_key i" s "node P"] by (simp add: getPreKey_def)

lemma removePreKey_frame:
  "k \<noteq> prekey_used_key i \<Longrightarrow> db_kv (removePreKey P s i) k = db_kv s k"
  "store_key (removePreKey P s i) = store_key s"
  "db_kv (removePreKey P s i) (prekey_used_key i) \<noteq> None"
  by (simp_all add: removePreKey_def store_set_frame tick_frame)

lemma falsy_bytes [simp]: "\<not> falsy (Some (JUint8Array bs))"
  by simp

lemma getPreKey_savePreKey:
  assumes "platform_ok P"
  shows "getPreKey P (savePreKey P s i r) i = Inr r"
proof -
  have n: "node_ok (node P)" and l: "lib_ok (lib P)" using assms by (simp_all add: platform_ok_def)
  have "store_get (node P) (savePreKey P s i r) (prekey_key i) =
          Inr (Some (JUint8Array (PreKeyRecord_serialize (lib P) r)))"
    unfolding savePreKey_def using store_get_set_same[OF n, of "JUint8Array (PreKeyRecord_serialize (lib P) r)"]
    by simp
  then show ?thesis using l by (simp add: getPreKey_def deserialize_def lib_ok_def)
qed


lemma demo_written_kv: "db_kv demo_written ''note'' = Some demo_payload"
  by (simp add: demo_written_def store_set_def empty_store_def demo_payload_def)

lemma demo_other_key_open:
  "gcm_open toy_node (store_key demo_other_key) (take IV_LENGTH demo_payload)
     (take TAG_LENGTH (drop IV_LENGTH demo_payload)) (drop (IV_LENGTH + TAG_LENGTH) demo_payload) = None"
  by code_simp

lemma demo_tampered_open:
  "gcm_open toy_node (store_key demo_tampered) (take IV_LENGTH (demo_payload[30 := 9]))
     (take TAG_LENGTH (drop IV_LENGTH (demo_payload[30 := 9])))
     (drop (IV_LENGTH + TAG_LENGTH) (demo_payload[30 := 9])) = None"
  by code_simp

subsection \<open>Counters and pre-keys\<close>

lemma key_distinct:
  "prekey_key i \<noteq> COUNTER_PREKEY" "prekey_key i \<noteq> COUNTER_SIGNED_PREKEY"
  "prekey_key i \<noteq> COUNTER_KYBER_PREKEY" "prekey_key i \<noteq> ''local:identityKeyPair''"
  "prekey_key i \<noteq> signedprekey_key j" "prekey_key i \<noteq> kyberprekey_key j"
  "signedprekey_key i \<noteq> COUNTER_PREKEY" "signedprekey_key i \<noteq> COUNTER_SIGNED_PREKEY"
  "signedprekey_key i \<noteq> COUNTER_KYBER_PREKEY" "signedprekey_key i \<noteq> ''local:identityKeyPair''"
  "signedprekey_key i \<noteq> kyberprekey_key j"
  "kyberprekey_key i \<noteq> COUNTER_PREKEY" "kyberprekey_key i \<noteq> COUNTER_SIGNED_PREKEY"
  "kyberprekey_key i \<noteq> COUNTER_KYBER_PREKEY" "kyberprekey_key i \<noteq> ''local:identityKeyPair''"
  "COUNTER_PREKEY \<noteq> COUNTER_SIGNED_PREKEY" "COUNTER_PREKEY \<noteq> COUNTER_KYBER_PREKEY"
  "COUNTER_SIGNED_PREKEY \<noteq> COUNTER_KYBER_PREKEY"
  "COUNTER_PREKEY \<noteq> ''local:identityKeyPair''" "COUNTER_SIGNED_PREKEY \<noteq> ''local:identityKeyPair''"
  "COUNTER_KYBER_PREKEY \<noteq> ''local:identityKeyPair''"
  by (simp_all add: prekey_key_def signedprekey_key_def kyberprekey_key_def
        COUNTER_PREKEY_def COUNTER_SIGNED_PREKEY_def COUNTER_KYBER_PREKEY_def)

lemma getCounter_cong:
  "db_kv s' k = db_kv s k \<Longrightarrow> store_key s' = store_key s \<Longrightarrow>
   getCounter P s' k st = getCounter P s k st"
  using store_get_cong[of s' k s "node P"] by (simp add: getCounter_def)

lemma getSignedPreKey_cong:
  "db_kv s' (signedprekey_key i) = db_kv s (signedprekey_key i) \<Longrightarrow> store_key s' = store_key s \<Longrightarrow>
   getSignedPreKey P s' i = getSignedPreKey P s i"
  using store_get_cong[of s' "signedprekey_key i" s "node P"] by (simp add: getSignedPreKey_def)

lemma getKyberPreKey_cong:
  "db_kv s' (kyberprekey_key i) = db_kv s (kyberprekey_key i) \<Longrightarrow> store_key s' = store_key s \<Longrightarrow>
   getKyberPreKey P s' i = getKyberPreKey P s i"
  using store_get_cong[of s' "kyberprekey_key i" s "node P"] by (simp add: getKyberPreKey_def)

lemma loadIdentityKeyPair_cong:
  "db_kv s' ''local:identityKeyPair'' = db_kv s ''local:identityKeyPair'' \<Longrightarrow>
   store_key s' = store_key s \<Longrightarrow> loadIdentityKeyPair P s' = loadIdentityKeyPair P s"
  using store_get_cong[of s' "''local:identityKeyPair''" s "node P"]
  by (simp add: loadIdentityKeyPair_def)

lemma store_get_counter:
  "node_ok L \<Longrightarrow> store_get L (store_set L s k (JNum n)) k = Inr (Some (JNum n))"
  using store_get_set_same[of L "JNum n" s k] by simp

lemma getCounter_stored:
  "store_get (node P) s k = Inr (Some (JNum n)) \<Longrightarrow> getCounter P s k st = Inr n"
  by (simp add: getCounter_def)

lemma nextCounter_ok:
  "getCounter P s k st = Inr c \<Longrightarrow>
   nextCounter P s k st = (Inr c, store_set (node P) s k (JNum (c + 1)))"
  by (simp add: nextCounter_def)

lemma getSignedPreKey_saveSignedPreKey:
  assumes "platform_ok P"
  shows "getSignedPreKey P (saveSignedPreKey P s i r) i = Inr r"
proof -
  have n: "node_ok (node P)" and l: "lib_ok (lib P)" using assms by (simp_all add: platform_ok_def)
  have "store_get (node P) (saveSignedPreKey P s i r) (signedprekey_key i) =
          Inr (Some (JUint8Array (SignedPreKeyRecord_serialize (lib P) r)))"
    unfolding saveSignedPreKey_def
    using store_get_set_same[OF n, of "JUint8Array (SignedPreKeyRecord_serialize (lib P) r)"]
    by simp
  then show ?thesis using l by (simp add: getSignedPreKey_def deserialize_def lib_ok_def)
qed

lemma getKyberPreKey_saveKyberPreKey:
  assumes "platform_ok P"
  shows "getKyberPreKey P (saveKyberPreKey P s i r) i = Inr r"
proof -
  have n: "node_ok (node P)" and l: "lib_ok (lib P)" using assms by (simp_all add: platform_ok_def)
  have "store_get (node P) (saveKyberPreKey P s i r) (kyberprekey_key i) =
          Inr (Some (JUint8Array (KyberPreKeyRecord_serialize (lib P) r)))"
    unfolding saveKyberPreKey_def
    using store_get_set_same[OF n, of "JUint8Array (KyberPreKeyRecord_serialize (lib P) r)"]
    by simp
  then show ?thesis using l by (simp add: getKyberPreKey_def deserialize_def lib_ok_def)
qed

lemma loadIdentityKeyPair_saveIdentityKeyPair:
  assumes "platform_ok P"
  shows "loadIdentityKeyPair P (saveIdentityKeyPair P s r) = Inr r"
proof -
  have n: "node_ok (node P)" and l: "lib_ok (lib P)" using assms by (simp_all add: platform_ok_def)
  have "store_get (node P) (saveIdentityKeyPair P s r) ''local:identityKeyPair'' =
          Inr (Some (JUint8Array (IdentityKeyPair_serialize (lib P) r)))"
    unfolding saveIdentityKeyPair_def
    using store_get_set_same[OF n, of "JUint8Array (IdentityKeyPair_serialize (lib P) r)"]
    by simp
  then show ?thesis using l by (simp add: loadIdentityKeyPair_def deserialize_def lib_ok_def)
qed

lemma savePreKey_frame:
  "store_key (savePreKey P s i r) = store_key s"
  "meta_localId (savePreKey P s i r) = meta_localId s"
  "meta_deviceId (savePreKey P s i r) = meta_deviceId s"
  "meta_registrationId (savePreKey P s i r) = meta_registrationId s"
  "draws (savePreKey P s i r) = Suc (draws s)"
  "k \<noteq> prekey_key i \<Longrightarrow> db_kv (savePreKey P s i r) k = db_kv s k"
  by (simp_all add: savePreKey_def store_set_frame)

lemma saveSignedPreKey_frame:
  "store_key (saveSignedPreKey P s i r) = store_key s"
  "meta_localId (saveSignedPreKey P s i r) = meta_localId s"
  "meta_deviceId (saveSignedPreKey P s i r) = meta_deviceId s"
  "meta_registrationId (saveSignedPreKey P s i r) = meta_registrationId s"
  "draws (saveSignedPreKey P s i r) = Suc (draws s)"
  "k \<noteq> signedprekey_key i \<Longrightarrow> db_kv (saveSignedPreKey P s i r) k = db_kv s k"
  by (simp_all add: saveSignedPreKey_def store_set_frame)

lemma saveKyberPreKey_frame:
  "store_key (saveKyberPreKey P s i r) = store_key s"
  "meta_localId (saveKyberPreKey P s i r) = meta_localId s"
  "meta_deviceId (saveKyberPreKey P s i r) = meta_deviceId s"
  "meta_registrationId (saveKyberPreKey P s i r) = meta_registrationId s"
  "draws (saveKyberPreKey P s i r) = Suc (draws s)"
  "k \<noteq> kyberprekey_key i \<Longrightarrow> db_kv (saveKyberPreKey P s i r) k = db_kv s k"
  by (simp_all add: saveKyberPreKey_def store_set_frame)

text \<open>One round of the loop.\<close>

lemma preKey_round:
  assumes ok: "platform_ok P" and c: "getCounter P s COUNTER_PREKEY 1 = Inr c"
  defines "r \<equiv> \<lparr>pkr_id = c,
                  pkr_public = getPublicKey (lib P) (PrivateKey_generate (lib P) (Suc (draws s))),
                  pkr_private = PrivateKey_generate (lib P) (Suc (draws s))\<rparr>"
  defines "s2 \<equiv> savePreKey P (tick (store_set (node P) s COUNTER_PREKEY (JNum (c + 1)))) c r"
  shows "preKey_loop P (Suc n) s = preKey_loop P n s2"
    and "store_get (node P) s2 COUNTER_PREKEY = Inr (Some (JNum (c + 1)))"
    and "getPreKey P s2 c = Inr r"
    and "draws s2 = draws s + 3" and "store_key s2 = store_key s"
    and "meta_localId s2 = meta_localId s" and "meta_deviceId s2 = meta_deviceId s"
    and "meta_registrationId s2 = meta_registrationId s"
    and "\<And>k. k \<noteq> COUNTER_PREKEY \<Longrightarrow> k \<noteq> prekey_key c \<Longrightarrow> db_kv s2 k = db_kv s k"
proof -
  have n: "node_ok (node P)" using ok by (simp add: platform_ok_def)
  define s1 where "s1 = store_set (node P) s COUNTER_PREKEY (JNum (c + 1))"
  have d1: "draws s1 = Suc (draws s)" by (simp add: s1_def store_set_frame)
  show "preKey_loop P (Suc n) s = preKey_loop P n s2"
    using nextCounter_ok[OF c] d1 by (simp add: s2_def r_def s1_def[symmetric] Let_def)
  have "store_get (node P) s2 COUNTER_PREKEY = store_get (node P) s1 COUNTER_PREKEY"
    by (rule store_get_cong)
       (simp_all add: s2_def s1_def[symmetric] savePreKey_frame tick_frame key_distinct[symmetric])
  then show "store_get (node P) s2 COUNTER_PREKEY = Inr (Some (JNum (c + 1)))"
    by (simp add: s1_def store_get_counter[OF n])
  show "getPreKey P s2 c = Inr r" unfolding s2_def by (rule getPreKey_savePreKey[OF ok])
  show "draws s2 = draws s + 3" by (simp add: s2_def savePreKey_frame tick_frame store_set_frame)
  show "store_key s2 = store_key s" by (simp add: s2_def savePreKey_frame tick_frame store_set_frame)
  show "meta_localId s2 = meta_localId s"
    by (simp add: s2_def savePreKey_frame tick_frame store_set_frame)
  show "meta_deviceId s2 = meta_deviceId s"
    by (simp add: s2_def savePreKey_frame tick_frame store_set_frame)
  show "meta_registrationId s2 = meta_registrationId s"
    by (simp add: s2_def savePreKey_frame tick_frame store_set_frame)
  show "\<And>k. k \<noteq> COUNTER_PREKEY \<Longrightarrow> k \<noteq> prekey_key c \<Longrightarrow> db_kv s2 k = db_kv s k"
    by (simp add: s2_def savePreKey_frame tick_frame store_set_frame)
qed

lemma preKey_loop_spec:
  assumes ok: "platform_ok P"
  shows "getCounter P s COUNTER_PREKEY 1 = Inr c \<Longrightarrow>
    \<exists>s'. preKey_loop P n s = (Inr (), s') \<and>
       draws s' = draws s + 3 * n \<and> store_key s' = store_key s \<and>
       meta_localId s' = meta_localId s \<and> meta_deviceId s' = meta_deviceId s \<and>
       meta_registrationId s' = meta_registrationId s \<and>
       getCounter P s' COUNTER_PREKEY 1 = Inr (c + int n) \<and>
       (0 < n \<longrightarrow> store_get (node P) s' COUNTER_PREKEY = Inr (Some (JNum (c + int n)))) \<and>
       (\<forall>i<n. getPreKey P s' (c + int i) =
                 Inr \<lparr>pkr_id = c + int i,
                      pkr_public = getPublicKey (lib P) (PrivateKey_generate (lib P) (draws s + 3 * i + 1)),
                      pkr_private = PrivateKey_generate (lib P) (draws s + 3 * i + 1)\<rparr>) \<and>
       (\<forall>k. k \<noteq> COUNTER_PREKEY \<longrightarrow> (\<forall>i<n. k \<noteq> prekey_key (c + int i)) \<longrightarrow> db_kv s' k = db_kv s k)"
proof (induction n arbitrary: s c)
  case 0
  then show ?case by simp
next
  case (Suc n)
  define r where "r = \<lparr>pkr_id = c,
                  pkr_public = getPublicKey (lib P) (PrivateKey_generate (lib P) (Suc (draws s))),
                  pkr_private = PrivateKey_generate (lib P) (Suc (draws s))\<rparr>"
  define s2 where "s2 = savePreKey P (tick (store_set (node P) s COUNTER_PREKEY (JNum (c + 1)))) c r"
  note rd = preKey_round[OF ok Suc.prems, folded r_def, folded s2_def]
  have c2: "getCounter P s2 COUNTER_PREKEY 1 = Inr (c + 1)"
    using rd(2) by (rule getCounter_stored)
  from Suc.IH[OF c2] obtain s' where
    run: "preKey_loop P n s2 = (Inr (), s')"
    and dr: "draws s' = draws s2 + 3 * n" and sk: "store_key s' = store_key s2"
    and m1: "meta_localId s' = meta_localId s2" and m2: "meta_deviceId s' = meta_deviceId s2"
    and m3: "meta_registrationId s' = meta_registrationId s2"
    and cn: "getCounter P s' COUNTER_PREKEY 1 = Inr (c + 1 + int n)"
    and st: "0 < n \<longrightarrow> store_get (node P) s' COUNTER_PREKEY = Inr (Some (JNum (c + 1 + int n)))"
    and pk: "\<forall>i<n. getPreKey P s' (c + 1 + int i) =
                 Inr \<lparr>pkr_id = c + 1 + int i,
                      pkr_public = getPublicKey (lib P) (PrivateKey_generate (lib P) (draws s2 + 3 * i + 1)),
                      pkr_private = PrivateKey_generate (lib P) (draws s2 + 3 * i + 1)\<rparr>"
    and fr: "\<forall>k. k \<noteq> COUNTER_PREKEY \<longrightarrow> (\<forall>i<n. k \<noteq> prekey_key (c + 1 + int i)) \<longrightarrow> db_kv s' k = db_kv s2 k"
    by blast
  have 1: "preKey_loop P (Suc n) s = (Inr (), s')" using rd(1) run by simp
  have 2: "draws s' = draws s + 3 * Suc n" using dr rd(4) by simp
  have 3: "getCounter P s' COUNTER_PREKEY 1 = Inr (c + int (Suc n))" using cn by (simp add: add.assoc)
  have 4: "store_get (node P) s' COUNTER_PREKEY = Inr (Some (JNum (c + int (Suc n))))"
  proof (cases n)
    case 0
    with run have "s' = s2" by simp
    with rd(2) 0 show ?thesis by simp
  next
    case (Suc m)
    with st show ?thesis by (simp add: add.assoc)
  qed
  have 5: "getPreKey P s' (c + int i) =
                 Inr \<lparr>pkr_id = c + int i,
                      pkr_public = getPublicKey (lib P) (PrivateKey_generate (lib P) (draws s + 3 * i + 1)),
                      pkr_private = PrivateKey_generate (lib P) (draws s + 3 * i + 1)\<rparr>"
    if "i < Suc n" for i
  proof (cases i)
    case 0
    have "db_kv s' (prekey_key c) = db_kv s2 (prekey_key c)"
      using fr by (simp add: key_distinct prekey_key_inj)
    then have "getPreKey P s' c = getPreKey P s2 c" using sk by (rule getPreKey_cong)
    with rd(3) 0 show ?thesis by (simp add: r_def)
  next
    case (Suc j)
    with that have "j < n" by simp
    with pk have "getPreKey P s' (c + 1 + int j) =
                 Inr \<lparr>pkr_id = c + 1 + int j,
                      pkr_public = getPublicKey (lib P) (PrivateKey_generate (lib P) (draws s2 + 3 * j + 1)),
                      pkr_private = PrivateKey_generate (lib P) (draws s2 + 3 * j + 1)\<rparr>"
      by blast
    moreover have "c + 1 + int j = c + int i" using Suc by simp
    moreover have "draws s2 + 3 * j + 1 = draws s + 3 * i + 1" using Suc rd(4) by simp
    ultimately show ?thesis by simp
  qed
  have 6: "db_kv s' k = db_kv s k"
    if k: "k \<noteq> COUNTER_PREKEY" "\<forall>i<Suc n. k \<noteq> prekey_key (c + int i)" for k
  proof -
    have "k \<noteq> prekey_key (c + 1 + int j)" if "j < n" for j
      using k(2)[rule_format, of "Suc j"] that by (simp add: add.assoc)
    then have "db_kv s' k = db_kv s2 k" using fr k(1) by blast
    moreover have "k \<noteq> prekey_key c" using k(2)[rule_format, of 0] by simp
    ultimately show ?thesis using rd(9)[OF k(1)] by simp
  qed
  show ?case
    using 1 2 3 4 5 6 sk m1 m2 m3 rd(5-8) by simp
qed

lemma generateSignedPreKey_spec:
  fixes ikp :: identity_key_pair
  assumes ok: "platform_ok P" and c: "getCounter P s COUNTER_SIGNED_PREKEY 1 = Inr c"
  defines "r \<equiv> \<lparr>spk_id = c, spk_timestamp = Date_now (node P) (draws s + 2),
                  spk_public = getPublicKey (lib P) (PrivateKey_generate (lib P) (draws s + 1)),
                  spk_private = PrivateKey_generate (lib P) (draws s + 1),
                  spk_signature = sign (lib P) (ik_private ikp)
                     (PublicKey_serialize (lib P)
                        (getPublicKey (lib P) (PrivateKey_generate (lib P) (draws s + 1))))\<rparr>"
  shows "\<exists>s'. generateSignedPreKey P ikp s = (Inr (), s') \<and>
       draws s' = draws s + 4 \<and> store_key s' = store_key s \<and>
       meta_localId s' = meta_localId s \<and> meta_deviceId s' = meta_deviceId s \<and>
       meta_registrationId s' = meta_registrationId s \<and>
       store_get (node P) s' COUNTER_SIGNED_PREKEY = Inr (Some (JNum (c + 1))) \<and>
       getSignedPreKey P s' c = Inr r \<and>
       (\<forall>k. k \<noteq> COUNTER_SIGNED_PREKEY \<longrightarrow> k \<noteq> signedprekey_key c \<longrightarrow> db_kv s' k = db_kv s k)"
proof -
  have n: "node_ok (node P)" using ok by (simp add: platform_ok_def)
  define s1 where "s1 = store_set (node P) s COUNTER_SIGNED_PREKEY (JNum (c + 1))"
  define s' where "s' = saveSignedPreKey P (tick (tick s1)) c r"
  have d1: "draws s1 = Suc (draws s)" by (simp add: s1_def store_set_frame)
  have 1: "generateSignedPreKey P ikp s = (Inr (), s')"
    using nextCounter_ok[OF c] d1
    by (simp add: generateSignedPreKey_def s'_def r_def s1_def[symmetric] Let_def)
  have "store_get (node P) s' COUNTER_SIGNED_PREKEY = store_get (node P) s1 COUNTER_SIGNED_PREKEY"
    by (rule store_get_cong)
       (simp_all add: s'_def saveSignedPreKey_frame tick_frame key_distinct[symmetric])
  then have 2: "store_get (node P) s' COUNTER_SIGNED_PREKEY = Inr (Some (JNum (c + 1)))"
    by (simp add: s1_def store_get_counter[OF n])
  have 3: "getSignedPreKey P s' c = Inr r"
    unfolding s'_def by (rule getSignedPreKey_saveSignedPreKey[OF ok])
  show ?thesis
    using 1 2 3 by (simp add: s'_def s1_def saveSignedPreKey_frame tick_frame store_set_frame)
qed

lemma generateKyberPreKey_spec:
  fixes ikp :: identity_key_pair
  assumes ok: "platform_ok P" and c: "getCounter P s COUNTER_KYBER_PREKEY 1 = Inr c"
  defines "r \<equiv> \<lparr>kpk_id = c, kpk_timestamp = Date_now (node P) (draws s + 2),
                  kpk_key_pair = KEMKeyPair_generate (lib P) (draws s + 1),
                  kpk_signature = sign (lib P) (ik_private ikp)
                     (KEMPublicKey_serialize (lib P) (KEMKeyPair_generate (lib P) (draws s + 1)))\<rparr>"
  shows "\<exists>s'. generateKyberPreKey P ikp s = (Inr (), s') \<and>
       draws s' = draws s + 4 \<and> store_key s' = store_key s \<and>
       meta_localId s' = meta_localId s \<and> meta_deviceId s' = meta_deviceId s \<and>
       meta_registrationId s' = meta_registrationId s \<and>
       store_get (node P) s' COUNTER_KYBER_PREKEY = Inr (Some (JNum (c + 1))) \<and>
       getKyberPreKey P s' c = Inr r \<and>
       (\<forall>k. k \<noteq> COUNTER_KYBER_PREKEY \<longrightarrow> k \<noteq> kyberprekey_key c \<longrightarrow> db_kv s' k = db_kv s k)"
proof -
  have n: "node_ok (node P)" using ok by (simp add: platform_ok_def)
  define s1 where "s1 = store_set (node P) s COUNTER_KYBER_PREKEY (JNum (c + 1))"
  define s' where "s' = saveKyberPreKey P (tick (tick s1)) c r"
  have d1: "draws s1 = Suc (draws s)" by (simp add: s1_def store_set_frame)
  have 1: "generateKyberPreKey P ikp s = (Inr (), s')"
    using nextCounter_ok[OF c] d1
    by (simp add: generateKyberPreKey_def s'_def r_def s1_def[symmetric] Let_def)
  have "store_get (node P) s' COUNTER_KYBER_PREKEY = store_get (node P) s1 COUNTER_KYBER_PREKEY"
    by (rule store_get_cong)
       (simp_all add: s'_def saveKyberPreKey_frame tick_frame key_distinct[symmetric])
  then have 2: "store_get (node P) s' COUNTER_KYBER_PREKEY = Inr (Some (JNum (c + 1)))"
    by (simp add: s1_def store_get_counter[OF n])
  have 3: "getKyberPreKey P s' c = Inr r"
    unfolding s'_def by (rule getKyberPreKey_saveKyberPreKey[OF ok])
  show ?thesis
    using 1 2 3 by (simp add: s'_def s1_def saveKyberPreKey_frame tick_frame store_set_frame)
qed

lemma generatePreKeys_post:
  fixes ikp :: identity_key_pair
  assumes ok: "platform_ok P" and ikp: "loadIdentityKeyPair P s = Inr ikp"
    and pc: "getCounter P s COUNTER_PREKEY 1 = Inr pc"
    and sc: "getCounter P s COUNTER_SIGNED_PREKEY 1 = Inr sc"
    and kc: "getCounter P s COUNTER_KYBER_PREKEY 1 = Inr kc"
  shows "\<exists>s'. generatePreKeys P s count = (Inr (), s') \<and>
       draws s' = draws s + 3 * count + 8 \<and> store_key s' = store_key s \<and>
       meta_localId s' = meta_localId s \<and> meta_deviceId s' = meta_deviceId s \<and>
       meta_registrationId s' = meta_registrationId s \<and>
       loadIdentityKeyPair P s' = Inr ikp \<and>
       getCounter P s' COUNTER_PREKEY 1 = Inr (pc + int count) \<and>
       (0 < count \<longrightarrow> store_get (node P) s' COUNTER_PREKEY = Inr (Some (JNum (pc + int count)))) \<and>
       (\<forall>i<count. getPreKey P s' (pc + int i) =
                 Inr \<lparr>pkr_id = pc + int i,
                      pkr_public = getPublicKey (lib P) (PrivateKey_generate (lib P) (draws s + 3 * i + 1)),
                      pkr_private = PrivateKey_generate (lib P) (draws s + 3 * i + 1)\<rparr>) \<and>
       store_get (node P) s' COUNTER_SIGNED_PREKEY = Inr (Some (JNum (sc + 1))) \<and>
       getSignedPreKey P s' sc =
         Inr \<lparr>spk_id = sc, spk_timestamp = Date_now (node P) (draws s + 3 * count + 2),
              spk_public = getPublicKey (lib P) (PrivateKey_generate (lib P) (draws s + 3 * count + 1)),
              spk_private = PrivateKey_generate (lib P) (draws s + 3 * count + 1),
              spk_signature = sign (lib P) (ik_private ikp)
                 (PublicKey_serialize (lib P)
                    (getPublicKey (lib P) (PrivateKey_generate (lib P) (draws s + 3 * count + 1))))\<rparr> \<and>
       store_get (node P) s' COUNTER_KYBER_PREKEY = Inr (Some (JNum (kc + 1))) \<and>
       getKyberPreKey P s' kc =
         Inr \<lparr>kpk_id = kc, kpk_timestamp = Date_now (node P) (draws s + 3 * count + 6),
              kpk_key_pair = KEMKeyPair_generate (lib P) (draws s + 3 * count + 5),
              kpk_signature = sign (lib P) (ik_private ikp)
                 (KEMPublicKey_serialize (lib P) (KEMKeyPair_generate (lib P) (draws s + 3 * count + 5)))\<rparr> \<and>
       (\<forall>k. k \<notin> written_by_generatePreKeys pc count sc kc \<longrightarrow> db_kv s' k = db_kv s k)"
proof -
  from preKey_loop_spec[OF ok pc, of count] obtain s1 where
    run1: "preKey_loop P count s = (Inr (), s1)"
    and d1: "draws s1 = draws s + 3 * count" and k1: "store_key s1 = store_key s"
    and m1: "meta_localId s1 = meta_localId s" "meta_deviceId s1 = meta_deviceId s"
       "meta_registrationId s1 = meta_registrationId s"
    and c1: "getCounter P s1 COUNTER_PREKEY 1 = Inr (pc + int count)"
    and t1: "0 < count \<longrightarrow> store_get (node P) s1 COUNTER_PREKEY = Inr (Some (JNum (pc + int count)))"
    and p1: "\<forall>i<count. getPreKey P s1 (pc + int i) =
                 Inr \<lparr>pkr_id = pc + int i,
                      pkr_public = getPublicKey (lib P) (PrivateKey_generate (lib P) (draws s + 3 * i + 1)),
                      pkr_private = PrivateKey_generate (lib P) (draws s + 3 * i + 1)\<rparr>"
    and f1: "\<forall>k. k \<noteq> COUNTER_PREKEY \<longrightarrow> (\<forall>i<count. k \<noteq> prekey_key (pc + int i)) \<longrightarrow> db_kv s1 k = db_kv s k"
    by blast
  have sc1: "getCounter P s1 COUNTER_SIGNED_PREKEY 1 = Inr sc"
  proof -
    have "db_kv s1 COUNTER_SIGNED_PREKEY = db_kv s COUNTER_SIGNED_PREKEY"
      using f1 by (simp add: key_distinct key_distinct[symmetric])
    from getCounter_cong[OF this k1] sc show ?thesis by simp
  qed
  from generateSignedPreKey_spec[OF ok sc1, of ikp] obtain s2 where
    run2: "generateSignedPreKey P ikp s1 = (Inr (), s2)"
    and d2: "draws s2 = draws s1 + 4" and k2: "store_key s2 = store_key s1"
    and m2: "meta_localId s2 = meta_localId s1" "meta_deviceId s2 = meta_deviceId s1"
       "meta_registrationId s2 = meta_registrationId s1"
    and t2: "store_get (node P) s2 COUNTER_SIGNED_PREKEY = Inr (Some (JNum (sc + 1)))"
    and p2: "getSignedPreKey P s2 sc =
         Inr \<lparr>spk_id = sc, spk_timestamp = Date_now (node P) (draws s1 + 2),
              spk_public = getPublicKey (lib P) (PrivateKey_generate (lib P) (draws s1 + 1)),
              spk_private = PrivateKey_generate (lib P) (draws s1 + 1),
              spk_signature = sign (lib P) (ik_private ikp)
                 (PublicKey_serialize (lib P)
                    (getPublicKey (lib P) (PrivateKey_generate (lib P) (draws s1 + 1))))\<rparr>"
    and f2: "\<forall>k. k \<noteq> COUNTER_SIGNED_PREKEY \<longrightarrow> k \<noteq> signedprekey_key sc \<longrightarrow> db_kv s2 k = db_kv s1 k"
    by blast
  have kc2: "getCounter P s2 COUNTER_KYBER_PREKEY 1 = Inr kc"
  proof -
    have "db_kv s2 COUNTER_KYBER_PREKEY = db_kv s1 COUNTER_KYBER_PREKEY"
      using f2 by (simp add: key_distinct key_distinct[symmetric])
    also have "\<dots> = db_kv s COUNTER_KYBER_PREKEY"
      using f1 by (simp add: key_distinct key_distinct[symmetric])
    finally have "db_kv s2 COUNTER_KYBER_PREKEY = db_kv s COUNTER_KYBER_PREKEY" .
    from getCounter_cong[OF this] k2 k1 kc show ?thesis by simp
  qed
  from generateKyberPreKey_spec[OF ok kc2, of ikp] obtain s3 where
    run3: "generateKyberPreKey P ikp s2 = (Inr (), s3)"
    and d3: "draws s3 = draws s2 + 4" and k3: "store_key s3 = store_key s2"
    and m3: "meta_localId s3 = meta_localId s2" "meta_deviceId s3 = meta_deviceId s2"
       "meta_registrationId s3 = meta_registrationId s2"
    and t3: "store_get (node P) s3 COUNTER_KYBER_PREKEY = Inr (Some (JNum (kc + 1)))"
    and p3: "getKyberPreKey P s3 kc =
         Inr \<lparr>kpk_id = kc, kpk_timestamp = Date_now (node P) (draws s2 + 2),
              kpk_key_pair = KEMKeyPair_generate (lib P) (draws s2 + 1),
              kpk_signature = sign (lib P) (ik_private ikp)
                 (KEMPublicKey_serialize (lib P) (KEMKeyPair_generate (lib P) (draws s2 + 1)))\<rparr>"
    and f3: "\<forall>k. k \<noteq> COUNTER_KYBER_PREKEY \<longrightarrow> k \<noteq> kyberprekey_key kc \<longrightarrow> db_kv s3 k = db_kv s2 k"
    by blast
  have key: "store_key s3 = store_key s" using k1 k2 k3 by simp
  have key31: "store_key s3 = store_key s1" using k2 k3 by simp
  have f31: "db_kv s3 k = db_kv s1 k"
    if "k \<noteq> COUNTER_SIGNED_PREKEY" "k \<noteq> signedprekey_key sc"
       "k \<noteq> COUNTER_KYBER_PREKEY" "k \<noteq> kyberprekey_key kc" for k
    using f2 f3 that by simp
  have 1: "generatePreKeys P s count = (Inr (), s3)"
    by (simp add: generatePreKeys_def ikp run1 run2 run3)
  have 2: "draws s3 = draws s + 3 * count + 8" using d1 d2 d3 by simp
  have 3: "loadIdentityKeyPair P s3 = Inr ikp"
  proof -
    have "db_kv s3 ''local:identityKeyPair'' = db_kv s1 ''local:identityKeyPair''"
      by (rule f31) (simp_all add: key_distinct[symmetric])
    also have "\<dots> = db_kv s ''local:identityKeyPair''"
      using f1 by (simp add: key_distinct[symmetric])
    finally have "db_kv s3 ''local:identityKeyPair'' = db_kv s ''local:identityKeyPair''" .
    from loadIdentityKeyPair_cong[OF this key] ikp show ?thesis by simp
  qed
  have c31: "db_kv s3 COUNTER_PREKEY = db_kv s1 COUNTER_PREKEY"
    by (rule f31) (simp_all add: key_distinct key_distinct[symmetric])
  have 4: "getCounter P s3 COUNTER_PREKEY 1 = Inr (pc + int count)"
    using getCounter_cong[OF c31 key31] c1 by simp
  have 5: "0 < count \<longrightarrow> store_get (node P) s3 COUNTER_PREKEY = Inr (Some (JNum (pc + int count)))"
    using store_get_cong[OF c31 key31] t1 by simp
  have 6: "getPreKey P s3 (pc + int i) =
                 Inr \<lparr>pkr_id = pc + int i,
                      pkr_public = getPublicKey (lib P) (PrivateKey_generate (lib P) (draws s + 3 * i + 1)),
                      pkr_private = PrivateKey_generate (lib P) (draws s + 3 * i + 1)\<rparr>"
    if "i < count" for i
  proof -
    have "db_kv s3 (prekey_key (pc + int i)) = db_kv s1 (prekey_key (pc + int i))"
      by (rule f31) (simp_all add: key_distinct)
    from getPreKey_cong[OF this key31] p1 that show ?thesis by simp
  qed
  have 7: "store_get (node P) s3 COUNTER_SIGNED_PREKEY = Inr (Some (JNum (sc + 1)))"
  proof -
    have "db_kv s3 COUNTER_SIGNED_PREKEY = db_kv s2 COUNTER_SIGNED_PREKEY"
      using f3 by (simp add: key_distinct key_distinct[symmetric])
    from store_get_cong[OF this k3] t2 show ?thesis by simp
  qed
  have 8: "getSignedPreKey P s3 sc = getSignedPreKey P s2 sc"
  proof -
    have "db_kv s3 (signedprekey_key sc) = db_kv s2 (signedprekey_key sc)"
      using f3 by (simp add: key_distinct key_distinct[symmetric])
    from getSignedPreKey_cong[OF this k3] show ?thesis .
  qed
  have 9: "db_kv s3 k = db_kv s k" if "k \<notin> written_by_generatePreKeys pc count sc kc" for k
  proof -
    from that have a: "k \<noteq> COUNTER_SIGNED_PREKEY" "k \<noteq> signedprekey_key sc"
       "k \<noteq> COUNTER_KYBER_PREKEY" "k \<noteq> kyberprekey_key kc" "k \<noteq> COUNTER_PREKEY"
      and b: "\<forall>i<count. k \<noteq> prekey_key (pc + int i)"
      by (auto simp: written_by_generatePreKeys_def)
    have "db_kv s3 k = db_kv s1 k" using a by (intro f31)
    also have "\<dots> = db_kv s k" using f1 a(5) b by blast
    finally show ?thesis .
  qed
  have e1: "draws s1 + 2 = draws s + 3 * count + 2" "draws s1 + 1 = draws s + 3 * count + 1"
    using d1 by simp_all
  have e2: "draws s2 + 2 = draws s + 3 * count + 6" "draws s2 + 1 = draws s + 3 * count + 5"
    using d1 d2 by simp_all
  note p2' = p2[unfolded e1] and p3' = p3[unfolded e2]
  have m: "meta_localId s3 = meta_localId s" "meta_deviceId s3 = meta_deviceId s"
       "meta_registrationId s3 = meta_registrationId s"
    using m1 m2 m3 by simp_all
  show ?thesis
    using 1 2 3 4 5 6 7 8 9 key m t3 p2' p3' by simp
qed

lemma demo_alice_facts:
  "loadIdentityKeyPair toy demo_alice = Inr (IdentityKeyPair_generate toy_lib 1)"
  "k \<noteq> ''local:identityKeyPair'' \<Longrightarrow> db_kv demo_alice k = None"
  "draws demo_alice = 3"
  "getLocalIdentity demo_alice = Some ''alice''"
  "getRegistrationId demo_alice = Some 1"
  "SignalState_getDeviceId demo_alice = 1"
proof -
  show "loadIdentityKeyPair toy demo_alice = Inr (IdentityKeyPair_generate toy_lib 1)"
    using loadIdentityKeyPair_saveIdentityKeyPair[OF platform_ok_toy]
    by (simp add: demo_alice_def initializeIdentity_def Let_def toy_def empty_store_def)
  show "k \<noteq> ''local:identityKeyPair'' \<Longrightarrow> db_kv demo_alice k = None"
    by (simp add: demo_alice_def initializeIdentity_def Let_def saveIdentityKeyPair_def store_set_def
          setLocalId_def setDeviceId_def setRegistrationId_def tick_def empty_store_def)
  show "draws demo_alice = 3"
    by (simp add: demo_alice_def initializeIdentity_def Let_def saveIdentityKeyPair_def store_set_def
          setLocalId_def setDeviceId_def setRegistrationId_def tick_def empty_store_def)
  show "getLocalIdentity demo_alice = Some ''alice''"
    by (simp add: demo_alice_def initializeIdentity_def Let_def saveIdentityKeyPair_def store_set_def
          setLocalId_def setDeviceId_def setRegistrationId_def tick_def empty_store_def
          getLocalIdentity_def getLocalId_def)
  show "getRegistrationId demo_alice = Some 1"
    by (simp add: demo_alice_def initializeIdentity_def Let_def saveIdentityKeyPair_def store_set_def
          setLocalId_def setDeviceId_def setRegistrationId_def tick_def empty_store_def
          getRegistrationId_def toy_def toy_node_def)
  show "SignalState_getDeviceId demo_alice = 1"
    by (simp add: demo_alice_def initializeIdentity_def Let_def saveIdentityKeyPair_def store_set_def
          setLocalId_def setDeviceId_def setRegistrationId_def tick_def empty_store_def
          SignalState_getDeviceId_def getDeviceId_def)
qed

lemma demo_alice_counters:
  "getCounter toy demo_alice COUNTER_PREKEY 1 = Inr 1"
  "getCounter toy demo_alice COUNTER_SIGNED_PREKEY 1 = Inr 1"
  "getCounter toy demo_alice COUNTER_KYBER_PREKEY 1 = Inr 1"
  by (simp_all add: getCounter_def store_get_def demo_alice_facts(2) key_distinct)



subsection \<open>Sessions: what the message functions read and write\<close>



lemma agree_pair [simp]: "agree k (x, s) (y, t) \<longleftrightarrow> x = y \<and> same_except k s t"
  by (simp add: agree_def)

lemma same_except_refl [simp]: "same_except k s s"
  by (simp add: same_except_def)





































section \<open>The claims about the local store\<close>

text \<open>
  Claim C5. \<open>get\<close> fails closed. Whatever the key of the store and the bytes kept
  under \<open>k\<close>: when the authenticated decryption of these bytes under the key of the
  store does not verify (the key is not the one the value was sealed under, or the
  bytes were changed), \<open>get\<close> raises the error of \<open>decipher.final()\<close>, named
  \<open>TamperOrWrongPassphrase\<close> here; and every value that \<open>get\<close> returns is the decoding of
  the whole plaintext that the authenticated decryption released for the bytes kept
  under \<open>k\<close>. \<open>get\<close> reads the store and changes nothing, so the first call fails as
  every later one does.
\<close>

theorem get_fails_closed:
  "(db_kv s k = Some payload \<and>
    gcm_open L (store_key s) (take IV_LENGTH payload) (take TAG_LENGTH (drop IV_LENGTH payload))
      (drop (IV_LENGTH + TAG_LENGTH) payload) = None
    \<longrightarrow> store_get L s k = Inl TamperOrWrongPassphrase)
   \<and> (store_get L s k = Inr (Some v) \<longrightarrow>
        (\<exists>payload plaintext.
           db_kv s k = Some payload \<and>
           gcm_open L (store_key s) (take IV_LENGTH payload) (take TAG_LENGTH (drop IV_LENGTH payload))
             (drop (IV_LENGTH + TAG_LENGTH) payload) = Some plaintext \<and>
           decodeValue L plaintext = Inr v))"
  using store_get_tamper[of s k payload L] store_get_authenticated[of L s k v]
  by (simp add: IV_LENGTH_def TAG_LENGTH_def)

text \<open>
  On the small platform: a value written under one key and read under another, and a
  value one byte of whose ciphertext was changed, both raise the error; the value
  read under its own key comes back.
\<close>

theorem get_fails_closed_witness:
  "store_get toy_node demo_other_key ''note'' = Inl TamperOrWrongPassphrase
   \<and> store_get toy_node demo_tampered ''note'' = Inl TamperOrWrongPassphrase
   \<and> store_get toy_node demo_written ''note'' = Inr (Some (JNum 5))"
proof -
  have 1: "db_kv demo_other_key ''note'' = Some demo_payload"
    by (simp add: demo_other_key_def demo_written_kv)
  have 2: "db_kv demo_tampered ''note'' = Some (demo_payload[30 := 9])"
    by (simp add: demo_tampered_def)
  have 3: "store_get toy_node demo_written ''note'' = Inr (Some (JNum 5))"
    unfolding demo_written_def using store_get_set_same[OF node_ok_toy, of "JNum 5" empty_store "''note''"] by simp
  show ?thesis
    using get_fails_closed[of demo_other_key "''note''" demo_payload toy_node "JNum 5"]
      get_fails_closed[of demo_tampered "''note''" "demo_payload[30 := 9]" toy_node "JNum 5"]
      1 2 3 demo_other_key_open demo_tampered_open
    by simp
qed




text \<open>
  Claim C9. \<open>removePreKey(i)\<close> keeps every pre-key record: the bytes kept under
  \<open>prekey:j\<close> are the same after it as before, for every \<open>j\<close> (\<open>i\<close> included), and
  \<open>getPreKey(j)\<close> gives what it gave before. The only entry of the table that it
  writes is the marker \<open>prekey:used:i\<close>, which is present afterwards and is not the key
  of a pre-key record.
\<close>

theorem removePreKey_keeps_record:
  "db_kv (removePreKey P s i) (prekey_key j) = db_kv s (prekey_key j)
   \<and> getPreKey P (removePreKey P s i) j = getPreKey P s j
   \<and> (\<forall>k. k \<noteq> prekey_used_key i \<longrightarrow> db_kv (removePreKey P s i) k = db_kv s k)
   \<and> db_kv (removePreKey P s i) (prekey_used_key i) \<noteq> None
   \<and> prekey_used_key i \<noteq> prekey_key j"
proof -
  have 1: "db_kv (removePreKey P s i) (prekey_key j) = db_kv s (prekey_key j)"
    by (rule removePreKey_frame) (rule prekey_key_not_used)
  have 2: "getPreKey P (removePreKey P s i) j = getPreKey P s j"
    by (rule getPreKey_cong) (simp_all add: 1 removePreKey_frame)
  show ?thesis
    using 1 2 prekey_key_not_used[of j i] by (simp add: removePreKey_frame)
qed

text \<open>
  On the small platform: a record saved under the id 5 is still returned after
  \<open>removePreKey(5)\<close>, and the marker, absent before, is present.
\<close>

theorem removePreKey_keeps_record_witness:
  "getPreKey toy (removePreKey toy (savePreKey toy empty_store 5 demo_prekey) 5) 5 = Inr demo_prekey
   \<and> db_kv (removePreKey toy (savePreKey toy empty_store 5 demo_prekey) 5) (prekey_key 5)
       = db_kv (savePreKey toy empty_store 5 demo_prekey) (prekey_key 5)
   \<and> db_kv (savePreKey toy empty_store 5 demo_prekey) (prekey_key 5) \<noteq> None
   \<and> db_kv (savePreKey toy empty_store 5 demo_prekey) (prekey_used_key 5) = None
   \<and> db_kv (removePreKey toy (savePreKey toy empty_store 5 demo_prekey) 5) (prekey_used_key 5) \<noteq> None"
proof -
  have 1: "db_kv (savePreKey toy empty_store 5 demo_prekey) (prekey_used_key 5) = None"
    using prekey_key_not_used[of 5 5] by (simp add: savePreKey_def store_set_def empty_store_def)
  have 2: "db_kv (savePreKey toy empty_store 5 demo_prekey) (prekey_key 5) \<noteq> None"
    by (simp add: savePreKey_def store_set_frame)
  show ?thesis
    using removePreKey_keeps_record[of toy "savePreKey toy empty_store 5 demo_prekey" 5 5]
      getPreKey_savePreKey[OF platform_ok_toy, of empty_store 5 demo_prekey] 1 2
    by simp
qed

section \<open>The claims about pre-keys and bundles\<close>

text \<open>
  Claim C7. Let the platform keep its laws, and let the store hold an identity key pair
  and three counters that can be read, standing at \<open>pc\<close>, \<open>sc\<close> and \<open>kc\<close> (each 1 when it
  was never written). Then \<open>generatePreKeys(count)\<close> returns, and in the store it leaves:
  for each \<open>i < count\<close> the one-time pre-key \<open>pc + i\<close> is the record of a private key drawn
  for it (the draws are numbered, a new one for every record) with the public key of
  that private key, so the ids are \<open>pc, pc + 1, ...\<close> in the order of allocation, and the
  counter stands at \<open>pc + count\<close>; the signed pre-key \<open>sc\<close> is the record of a newly drawn
  key whose signature is made with the identity private key over the serialized
  public key, and its counter stands at \<open>sc + 1\<close>; the post-quantum pre-key \<open>kc\<close> is the
  record of a newly drawn key pair whose signature is made with the identity private
  key over its serialized public key, and its counter stands at \<open>kc + 1\<close>. Nothing else
  is written: every entry of the table other than the three counters and these
  \<open>count + 2\<close> records keeps its bytes.
\<close>

theorem generatePreKeys_allocates:
  fixes ikp :: identity_key_pair
  assumes "platform_ok P" and "loadIdentityKeyPair P s = Inr ikp"
    and "getCounter P s COUNTER_PREKEY 1 = Inr pc"
    and "getCounter P s COUNTER_SIGNED_PREKEY 1 = Inr sc"
    and "getCounter P s COUNTER_KYBER_PREKEY 1 = Inr kc"
  shows "\<exists>s'. generatePreKeys P s count = (Inr (), s') \<and>
       (\<forall>i<count. getPreKey P s' (pc + int i) =
                 Inr \<lparr>pkr_id = pc + int i,
                      pkr_public = getPublicKey (lib P) (PrivateKey_generate (lib P) (draws s + 3 * i + 1)),
                      pkr_private = PrivateKey_generate (lib P) (draws s + 3 * i + 1)\<rparr>) \<and>
       getCounter P s' COUNTER_PREKEY 1 = Inr (pc + int count) \<and>
       getSignedPreKey P s' sc =
         Inr \<lparr>spk_id = sc, spk_timestamp = Date_now (node P) (draws s + 3 * count + 2),
              spk_public = getPublicKey (lib P) (PrivateKey_generate (lib P) (draws s + 3 * count + 1)),
              spk_private = PrivateKey_generate (lib P) (draws s + 3 * count + 1),
              spk_signature = sign (lib P) (ik_private ikp)
                 (PublicKey_serialize (lib P)
                    (getPublicKey (lib P) (PrivateKey_generate (lib P) (draws s + 3 * count + 1))))\<rparr> \<and>
       getCounter P s' COUNTER_SIGNED_PREKEY 1 = Inr (sc + 1) \<and>
       getKyberPreKey P s' kc =
         Inr \<lparr>kpk_id = kc, kpk_timestamp = Date_now (node P) (draws s + 3 * count + 6),
              kpk_key_pair = KEMKeyPair_generate (lib P) (draws s + 3 * count + 5),
              kpk_signature = sign (lib P) (ik_private ikp)
                 (KEMPublicKey_serialize (lib P) (KEMKeyPair_generate (lib P) (draws s + 3 * count + 5)))\<rparr> \<and>
       getCounter P s' COUNTER_KYBER_PREKEY 1 = Inr (kc + 1) \<and>
       (\<forall>k. k \<notin> written_by_generatePreKeys pc count sc kc \<longrightarrow> db_kv s' k = db_kv s k)"
proof -
  from generatePreKeys_post[OF assms, of count] obtain s' where
    a: "generatePreKeys P s count = (Inr (), s')"
    and b: "\<forall>i<count. getPreKey P s' (pc + int i) =
                 Inr \<lparr>pkr_id = pc + int i,
                      pkr_public = getPublicKey (lib P) (PrivateKey_generate (lib P) (draws s + 3 * i + 1)),
                      pkr_private = PrivateKey_generate (lib P) (draws s + 3 * i + 1)\<rparr>"
    and c: "getCounter P s' COUNTER_PREKEY 1 = Inr (pc + int count)"
    and d: "store_get (node P) s' COUNTER_SIGNED_PREKEY = Inr (Some (JNum (sc + 1)))"
    and e: "getSignedPreKey P s' sc =
         Inr \<lparr>spk_id = sc, spk_timestamp = Date_now (node P) (draws s + 3 * count + 2),
              spk_public = getPublicKey (lib P) (PrivateKey_generate (lib P) (draws s + 3 * count + 1)),
              spk_private = PrivateKey_generate (lib P) (draws s + 3 * count + 1),
              spk_signature = sign (lib P) (ik_private ikp)
                 (PublicKey_serialize (lib P)
                    (getPublicKey (lib P) (PrivateKey_generate (lib P) (draws s + 3 * count + 1))))\<rparr>"
    and f: "store_get (node P) s' COUNTER_KYBER_PREKEY = Inr (Some (JNum (kc + 1)))"
    and g: "getKyberPreKey P s' kc =
         Inr \<lparr>kpk_id = kc, kpk_timestamp = Date_now (node P) (draws s + 3 * count + 6),
              kpk_key_pair = KEMKeyPair_generate (lib P) (draws s + 3 * count + 5),
              kpk_signature = sign (lib P) (ik_private ikp)
                 (KEMPublicKey_serialize (lib P) (KEMKeyPair_generate (lib P) (draws s + 3 * count + 5)))\<rparr>"
    and h: "\<forall>k. k \<notin> written_by_generatePreKeys pc count sc kc \<longrightarrow> db_kv s' k = db_kv s k"
    by blast
  show ?thesis
    using a b c e g h getCounter_stored[OF d, of 1] getCounter_stored[OF f, of 1] by blast
qed

text \<open>
  On the small platform, after \<open>initializeIdentity\<close>: two one-time pre-keys with the ids 1
  and 2, the signed pre-key 1 and the post-quantum pre-key 1.
\<close>

theorem generatePreKeys_allocates_witness:
  "\<exists>s'. generatePreKeys toy demo_alice 2 = (Inr (), s') \<and>
     getPreKey toy s' 1 =
       Inr \<lparr>pkr_id = 1, pkr_public = PublicKey [42, 4], pkr_private = PrivateKey [4, 42]\<rparr> \<and>
     getPreKey toy s' 2 =
       Inr \<lparr>pkr_id = 2, pkr_public = PublicKey [42, 7], pkr_private = PrivateKey [7, 42]\<rparr> \<and>
     getCounter toy s' COUNTER_PREKEY 1 = Inr 3 \<and>
     getSignedPreKey toy s' 1 =
       Inr \<lparr>spk_id = 1, spk_timestamp = 1700000000011, spk_public = PublicKey [42, 10],
            spk_private = PrivateKey [10, 42], spk_signature = [9, 1, 5, 42, 10]\<rparr> \<and>
     getCounter toy s' COUNTER_SIGNED_PREKEY 1 = Inr 2 \<and>
     getKyberPreKey toy s' 1 =
       Inr \<lparr>kpk_id = 1, kpk_timestamp = 1700000000015, kpk_key_pair = KEMKeyPair [14, 1] [14, 2],
            kpk_signature = [9, 1, 8, 14, 1]\<rparr> \<and>
     getCounter toy s' COUNTER_KYBER_PREKEY 1 = Inr 2 \<and>
     db_kv s' ''local:identityKeyPair'' = db_kv demo_alice ''local:identityKeyPair''"
proof -
  have w: "''local:identityKeyPair'' \<notin> written_by_generatePreKeys 1 2 1 1"
    by (auto simp: written_by_generatePreKeys_def key_distinct[symmetric])
  from generatePreKeys_allocates[OF platform_ok_toy demo_alice_facts(1) demo_alice_counters, of 2]
  obtain s' where a: "generatePreKeys toy demo_alice 2 = (Inr (), s')"
    and b: "\<forall>i<2. getPreKey toy s' (1 + int i) =
                 Inr \<lparr>pkr_id = 1 + int i,
                      pkr_public = getPublicKey (lib toy) (PrivateKey_generate (lib toy) (draws demo_alice + 3 * i + 1)),
                      pkr_private = PrivateKey_generate (lib toy) (draws demo_alice + 3 * i + 1)\<rparr>"
    and c: "getCounter toy s' COUNTER_PREKEY 1 = Inr (1 + int 2)"
       "getSignedPreKey toy s' 1 =
         Inr \<lparr>spk_id = 1, spk_timestamp = Date_now (node toy) (draws demo_alice + 3 * 2 + 2),
              spk_public = getPublicKey (lib toy) (PrivateKey_generate (lib toy) (draws demo_alice + 3 * 2 + 1)),
              spk_private = PrivateKey_generate (lib toy) (draws demo_alice + 3 * 2 + 1),
              spk_signature = sign (lib toy) (ik_private (IdentityKeyPair_generate toy_lib 1))
                 (PublicKey_serialize (lib toy)
                    (getPublicKey (lib toy) (PrivateKey_generate (lib toy) (draws demo_alice + 3 * 2 + 1))))\<rparr>"
       "getCounter toy s' COUNTER_SIGNED_PREKEY 1 = Inr (1 + 1)"
       "getKyberPreKey toy s' 1 =
         Inr \<lparr>kpk_id = 1, kpk_timestamp = Date_now (node toy) (draws demo_alice + 3 * 2 + 6),
              kpk_key_pair = KEMKeyPair_generate (lib toy) (draws demo_alice + 3 * 2 + 5),
              kpk_signature = sign (lib toy) (ik_private (IdentityKeyPair_generate toy_lib 1))
                 (KEMPublicKey_serialize (lib toy) (KEMKeyPair_generate (lib toy) (draws demo_alice + 3 * 2 + 5)))\<rparr>"
       "getCounter toy s' COUNTER_KYBER_PREKEY 1 = Inr (1 + 1)"
    and h: "\<forall>k. k \<notin> written_by_generatePreKeys 1 2 1 1 \<longrightarrow> db_kv s' k = db_kv demo_alice k"
    by blast
  have b0: "getPreKey toy s' (1 + int 0) =
                 Inr \<lparr>pkr_id = 1 + int 0,
                      pkr_public = getPublicKey (lib toy) (PrivateKey_generate (lib toy) (draws demo_alice + 3 * 0 + 1)),
                      pkr_private = PrivateKey_generate (lib toy) (draws demo_alice + 3 * 0 + 1)\<rparr>"
    using b[rule_format, of 0] by simp
  have b1: "getPreKey toy s' (1 + int 1) =
                 Inr \<lparr>pkr_id = 1 + int 1,
                      pkr_public = getPublicKey (lib toy) (PrivateKey_generate (lib toy) (draws demo_alice + 3 * 1 + 1)),
                      pkr_private = PrivateKey_generate (lib toy) (draws demo_alice + 3 * 1 + 1)\<rparr>"
    using b[rule_format, of 1] by simp
  have "generatePreKeys toy demo_alice 2 = (Inr (), s') \<and>
     getPreKey toy s' 1 =
       Inr \<lparr>pkr_id = 1, pkr_public = PublicKey [42, 4], pkr_private = PrivateKey [4, 42]\<rparr> \<and>
     getPreKey toy s' 2 =
       Inr \<lparr>pkr_id = 2, pkr_public = PublicKey [42, 7], pkr_private = PrivateKey [7, 42]\<rparr> \<and>
     getCounter toy s' COUNTER_PREKEY 1 = Inr 3 \<and>
     getSignedPreKey toy s' 1 =
       Inr \<lparr>spk_id = 1, spk_timestamp = 1700000000011, spk_public = PublicKey [42, 10],
            spk_private = PrivateKey [10, 42], spk_signature = [9, 1, 5, 42, 10]\<rparr> \<and>
     getCounter toy s' COUNTER_SIGNED_PREKEY 1 = Inr 2 \<and>
     getKyberPreKey toy s' 1 =
       Inr \<lparr>kpk_id = 1, kpk_timestamp = 1700000000015, kpk_key_pair = KEMKeyPair [14, 1] [14, 2],
            kpk_signature = [9, 1, 8, 14, 1]\<rparr> \<and>
     getCounter toy s' COUNTER_KYBER_PREKEY 1 = Inr 2 \<and>
     db_kv s' ''local:identityKeyPair'' = db_kv demo_alice ''local:identityKeyPair''"
    using a b0 b1 c h w
    by (simp add: demo_alice_facts(3) toy_def toy_lib_def toy_node_def)
  then show ?thesis by blast
qed



section \<open>The claim about the device id of a session\<close>



end
